theory Spec2Isabelle
  imports Main "HOL-Library.Word" "HOL-Library.AList"
begin

section \<open>The farm of rhminer: data model\<close>

text \<open>
  A shallow embedding of \<^verbatim>\<open>MinersLib/Farm.cpp\<close>. Every member function of
  \<^verbatim>\<open>Farm\<close> becomes a function on the record \<open>Farm\<close> below; what a function reads
  from its environment (the millisecond clock, the exit flag, the configured maximum of
  submit errors, the acceptor callback's outcome) is a parameter. A call of
  \<^verbatim>\<open>TimeGetMilliSec()\<close> is one parameter per call site, in program order, since two
  reads in one function need not agree. Locks and sleeps have no counterpart: each
  function is modelled as it runs when nothing else runs between its statements, and
  the one place where two threads share work, \<^verbatim>\<open>submitProof\<close>, is cut into the
  critical sections of the caller and of the thread, run in an order that is an
  argument. The pass-through callbacks and the read-only
  queries over the pool (\<^verbatim>\<open>ReconnectToServer\<close>, \<^verbatim>\<open>RequestNewWork\<close>,
  \<^verbatim>\<open>GetCPUMiner\<close>, \<^verbatim>\<open>HasOneCPUMiner\<close>, \<^verbatim>\<open>IsOneMinerInitializing\<close>) and the two
  pause broadcasts are not part of the model.
\<close>

type_synonym U32 = "32 word"
type_synonym U64 = "64 word"

subsection \<open>Work packages\<close>

record PascalWork =
  identity :: nat
  payload :: nat

text \<open>
  Modelled from the spec: \<^verbatim>\<open>PascalWork::IsSame\<close> is declared in
  \<^verbatim>\<open>corelib/PascalWork.h\<close>, which is not among the sources. The spec: two
  instances are the same work iff the identity token matches.
\<close>

definition IsSame :: "PascalWork \<Rightarrow> PascalWork \<Rightarrow> bool" where
  "IsSame a b = (identity a = identity b)"

subsection \<open>Worker handles\<close>

datatype CreatorClasType = ClassOpenCL | ClassNvidia | ClassCPU

record Miner =
  creatorClass :: CreatorClasType
  absoluteIndex :: U32
  poolIndex :: U32
  workSize :: U32
  working :: bool
  paused :: bool
  stopped :: bool
  minerWork :: "PascalWork option"
  workDirty :: bool
  hashCount :: U64
  temperatureReading :: U32
  fanReading :: U32

text \<open>
  Modelled from the spec: the class \<^verbatim>\<open>Miner\<close> and the factory
  \<^verbatim>\<open>GlobalMiningPreset::CreateMiner\<close> are external collaborators, absent from the
  sources. The handle keeps what the farm tells it (section 6 of the spec lists the
  calls) and what the farm reads back: a new handle is neither working nor stopped and
  has no work; \<^verbatim>\<open>SetWork\<close> hands the package over and resumes a paused worker.
\<close>

definition CreateMiner :: "CreatorClasType \<Rightarrow> U32 \<Rightarrow> Miner" where
  "CreateMiner createType globalIndex =
     \<lparr>creatorClass = createType, absoluteIndex = globalIndex, poolIndex = 0, workSize = 0,
      working = False, paused = False, stopped = False, minerWork = None,
      workDirty = False, hashCount = 0, temperatureReading = 0, fanReading = 0\<rparr>"

definition UpdateWorkSize :: "U32 \<Rightarrow> Miner \<Rightarrow> Miner" where
  "UpdateWorkSize n m = m\<lparr>workSize := n\<rparr>"

definition InitFromFarm :: "U32 \<Rightarrow> Miner \<Rightarrow> Miner" where
  "InitFromFarm i m = m\<lparr>poolIndex := i\<rparr>"

definition StartWorking :: "Miner \<Rightarrow> Miner" where
  "StartWorking m = m\<lparr>working := True\<rparr>"

definition Miner_SetWork :: "PascalWork option \<Rightarrow> Miner \<Rightarrow> Miner" where
  "Miner_SetWork w m = m\<lparr>minerWork := w, paused := False\<rparr>"

definition Miner_SetWorkpackageDirty :: "Miner \<Rightarrow> Miner" where
  "Miner_SetWorkpackageDirty m = m\<lparr>workDirty := True\<rparr>"

definition isStopped :: "Miner \<Rightarrow> bool" where
  "isStopped m = stopped m"

definition getAbsoluteIndex :: "Miner \<Rightarrow> U32" where
  "getAbsoluteIndex m = absoluteIndex m"

definition GetHashRatePerSec :: "Miner \<Rightarrow> U64" where
  "GetHashRatePerSec m = hashCount m"

definition GetTemp :: "Miner \<Rightarrow> U32 \<times> U32" where
  "GetTemp m = (temperatureReading m, fanReading m)"

subsection \<open>Solution statistics\<close>

record SolutionStats =
  acceptedCount :: "int \<Rightarrow> nat"
  rejectedCount :: "int \<Rightarrow> nat"

text \<open>
  Modelled from the spec: the class \<^verbatim>\<open>SolutionStats\<close> is absent from the sources.
  The spec: a mapping from device index to (accepted count, rejected count), mutated
  only through the farm's accept and reject operations, reset only at restart of mining.
\<close>

definition Begin :: "SolutionStats \<Rightarrow> SolutionStats" where
  "Begin st = \<lparr>acceptedCount = (\<lambda>_. 0), rejectedCount = (\<lambda>_. 0)\<rparr>"

definition accepted :: "int \<Rightarrow> SolutionStats \<Rightarrow> SolutionStats" where
  "accepted i st = st\<lparr>acceptedCount := (acceptedCount st)(i := acceptedCount st i + 1)\<rparr>"

definition rejected :: "int \<Rightarrow> SolutionStats \<Rightarrow> SolutionStats" where
  "rejected i st = st\<lparr>rejectedCount := (rejectedCount st)(i := rejectedCount st i + 1)\<rparr>"

definition getAccepted :: "SolutionStats \<Rightarrow> int \<Rightarrow> nat" where
  "getAccepted st i = acceptedCount st i"

definition getRejected :: "SolutionStats \<Rightarrow> int \<Rightarrow> nat" where
  "getRejected st i = rejectedCount st i"

subsection \<open>Telemetry snapshot\<close>

text \<open>
  The struct \<^verbatim>\<open>WorkingProgress\<close> is declared in a header that is not among the
  sources. Its vectors hold what \<^verbatim>\<open>miningProgress\<close> pushes into them: the per-worker
  rate is the \<^verbatim>\<open>U32\<close> local \<^verbatim>\<open>minerHashRate\<close>, so rates and peaks are kept as
  32-bit unsigned values.
\<close>

record WorkingProgress =
  totalHashRate :: U64
  minersHasheRate :: "U32 list"
  minersHasheRatePeak :: "U32 list"
  gpuGlobalIndex :: "U32 list"
  acceptedShares :: "nat list"
  rejectedShares :: "nat list"
  temperature :: "U32 list"
  fan :: "U32 list"

definition WorkingProgress_init :: WorkingProgress where
  "WorkingProgress_init =
     \<lparr>totalHashRate = 0, minersHasheRate = [], minersHasheRatePeak = [],
      gpuGlobalIndex = [], acceptedShares = [], rejectedShares = [],
      temperature = [], fan = []\<rparr>"

subsection \<open>Device inventory\<close>

text \<open>
  \<^verbatim>\<open>GpuManager::Gpus\<close> is the inventory \<^verbatim>\<open>start\<close> walks. The bit positions
  \<^verbatim>\<open>GpuType_NVIDIA\<close>, \<^verbatim>\<open>GpuType_AMD\<close>, \<^verbatim>\<open>GpuType_CPU\<close> and the macro
  \<^verbatim>\<open>RHMINER_TEST_BIT\<close> are declared elsewhere; the field \<^verbatim>\<open>gpuType\<close> is the list of
  the bits that are set and the test is membership. The name
  \<^verbatim>\<open>FormatString("GPU%d", globalIndex)\<close> is kept by its argument.
\<close>

datatype GpuTypeBit = GpuType_NVIDIA | GpuType_AMD | GpuType_CPU

datatype GpuName = Unnamed | NameGPU U32 | NameCPU

record GpuInfo =
  enabled :: bool
  initialized :: bool
  gpuType :: "GpuTypeBit list"
  deviceID :: nat
  deviceName :: string
  gpuName :: GpuName

definition RHMINER_TEST_BIT :: "GpuTypeBit list \<Rightarrow> GpuTypeBit \<Rightarrow> bool" where
  "RHMINER_TEST_BIT bits b = (b \<in> set bits)"

subsection \<open>Console output\<close>

datatype Message =
    MsgStartWhileRunning
  | MsgNoKernel nat string
  | MsgNoCpuGpu
  | MsgSubmitAborted
  | MsgTooManySubmitErrors
  | MsgAssertFailed

subsection \<open>The farm\<close>

text \<open>
  The members of \<^verbatim>\<open>Farm\<close> and of its \<^verbatim>\<open>m_farmData\<close>, together with the three
  pieces of process state the functions touch: the console (\<open>printed\<close>), the device
  inventory (\<open>Gpus\<close>) and the \<^verbatim>\<open>std::thread\<close> objects allocated with \<^verbatim>\<open>new\<close> and
  not yet deleted (\<open>threadObjects\<close>, each named by the submission id it was created
  for). \<open>m_submiters\<close> is the \<^verbatim>\<open>std::map\<close> from id to (thread, completed).
\<close>

record Farm =
  m_work :: "PascalWork option"
  m_miners :: "Miner list"
  m_isMining :: bool
  m_minersCount :: U32
  m_lastStart :: U64
  m_lastProgressTime :: U64
  m_solutionStats :: SolutionStats
  m_minersHasheRatePeak :: "U32 list"
  m_progress :: WorkingProgress
  m_consecutiveRejectedCount :: U32
  m_lastRejectedTimeMS :: U64
  m_submitID :: U32
  m_submiters :: "(U32 \<times> (U32 \<times> bool)) list"
  threadObjects :: "U32 list"
  printed :: "Message list"
  Gpus :: "GpuInfo list"

text \<open>
  Modelled from the spec: \<^verbatim>\<open>Farm.h\<close>, with the members' initial values, is not among
  the sources. A fresh farm is not mining, has an empty pool, no installed work, no
  submission in flight, a zero consecutive-rejection counter and no previous rejection
  (the zero timestamp that \<^verbatim>\<open>AddRejectedSolution\<close> tests for).
\<close>

definition Farm_init :: "GpuInfo list \<Rightarrow> Farm" where
  "Farm_init gpus =
     \<lparr>m_work = None, m_miners = [], m_isMining = False, m_minersCount = 0,
      m_lastStart = 0, m_lastProgressTime = 0,
      m_solutionStats = \<lparr>acceptedCount = (\<lambda>_. 0), rejectedCount = (\<lambda>_. 0)\<rparr>,
      m_minersHasheRatePeak = [], m_progress = WorkingProgress_init,
      m_consecutiveRejectedCount = 0, m_lastRejectedTimeMS = 0, m_submitID = 0,
      m_submiters = [], threadObjects = [], printed = [], Gpus = gpus\<rparr>"

text \<open>
  A call either returns to its caller or ends the process (\<^verbatim>\<open>exit(0)\<close>,
  \<^verbatim>\<open>RHMINER_EXIT_APP\<close>, a failed \<^verbatim>\<open>RHMINER_ASSERT\<close>); both carry the state reached.
\<close>

datatype 'a result = Returns 'a Farm | Terminates Farm

fun final :: "'a result \<Rightarrow> Farm" where
  "final (Returns _ s) = s"
| "final (Terminates s) = s"

fun terminated :: "'a result \<Rightarrow> bool" where
  "terminated (Returns _ _) = False"
| "terminated (Terminates _) = True"

text \<open>
  Modelled from the spec: \<^verbatim>\<open>resetTimer\<close> is defined in \<^verbatim>\<open>Farm.h\<close>. The spec: it
  resets the throughput-timing reference point; the reference becomes the clock reading.
\<close>

definition resetTimer :: "U64 \<Rightarrow> Farm \<Rightarrow> Farm" where
  "resetTimer now s = s\<lparr>m_lastStart := now\<rparr>"

section \<open>The circuit breaker\<close>

definition AddAcceptedSolution :: "int \<Rightarrow> Farm \<Rightarrow> Farm" where
  "AddAcceptedSolution gpuAbsIndex s =
     s\<lparr>m_solutionStats := accepted gpuAbsIndex (m_solutionStats s),
       m_consecutiveRejectedCount := 0\<rparr>"

text \<open>
  \<open>g_maxConsecutiveSubmitErrors\<close> is the global \<^verbatim>\<open>int\<close> of that name, cast to
  \<^verbatim>\<open>U32\<close> at the comparison. \<open>tcmp\<close> is the clock read in the condition (line 398),
  \<open>tstore\<close> the clock read when the timestamp is stored (line 405).
\<close>

definition AddRejectedSolution :: "int \<Rightarrow> int \<Rightarrow> U64 \<Rightarrow> U64 \<Rightarrow> Farm \<Rightarrow> unit result" where
  "AddRejectedSolution g_maxConsecutiveSubmitErrors gpuAbsIndex tcmp tstore s =
     (let s1 = s\<lparr>m_solutionStats := rejected gpuAbsIndex (m_solutionStats s)\<rparr>
      in if m_lastRejectedTimeMS s1 \<noteq> 0 \<and> tcmp - m_lastRejectedTimeMS s1 > 5 * 60000
         then Returns () (s1\<lparr>m_consecutiveRejectedCount := 0\<rparr>)
         else
           let s2 = s1\<lparr>m_consecutiveRejectedCount := m_consecutiveRejectedCount s1 + 1,
                       m_lastRejectedTimeMS := tstore\<rparr>
           in if m_consecutiveRejectedCount s2 \<ge> word_of_int g_maxConsecutiveSubmitErrors
              then Terminates (s2\<lparr>printed := printed s2 @ [MsgTooManySubmitErrors]\<rparr>)
              else Returns () s2)"

text \<open>
  A session of submission outcomes, as the network client reports them to the farm. It
  ends where the process ends.
\<close>

datatype SubmitEvent = Accepted int | Rejected int U64 U64

fun session :: "int \<Rightarrow> Farm \<Rightarrow> SubmitEvent list \<Rightarrow> unit result" where
  "session mx s [] = Returns () s"
| "session mx s (Accepted i # es) = session mx (AddAcceptedSolution i s) es"
| "session mx s (Rejected i tcmp tstore # es) =
     (case AddRejectedSolution mx i tcmp tstore s of
        Terminates s' \<Rightarrow> Terminates s'
      | Returns _ s' \<Rightarrow> session mx s' es)"


text \<open>The clock readings of an event are not before \<open>t\<close> (unsigned order).\<close>

fun notBefore :: "U64 \<Rightarrow> SubmitEvent \<Rightarrow> bool" where
  "notBefore t (Accepted i) = True"
| "notBefore t (Rejected i tcmp tstore) = (t \<le> tcmp)"

text \<open>
  The condition of line 397, negated: the call at clock reading \<open>t\<close> falls within the
  quiet window of the stored timestamp (or there is no stored timestamp).
\<close>

definition withinQuietWindow :: "U64 \<Rightarrow> U64 \<Rightarrow> bool" where
  "withinQuietWindow lastRejected t =
     (\<not> (lastRejected \<noteq> 0 \<and> t - lastRejected > 5 * 60000))"

section \<open>Work distribution\<close>

text \<open>
  The argument is a package (a non-null \<^verbatim>\<open>PascalWorkSptr\<close>); \<open>now\<close> is the clock
  read by \<^verbatim>\<open>resetTimer\<close>. In the first branch the workers are handed the installed
  package \<^verbatim>\<open>m_farmData.m_work\<close>, not the argument.
\<close>

definition SetWork :: "PascalWork \<Rightarrow> U64 \<Rightarrow> Farm \<Rightarrow> Farm" where
  "SetWork wp now s =
     (if (case m_work s of None \<Rightarrow> False | Some w \<Rightarrow> IsSame w wp)
      then s\<lparr>m_miners := map (Miner_SetWork (m_work s)) (m_miners s)\<rparr>
      else
        let s1 = s\<lparr>m_work := Some wp\<rparr>;
            s2 = s1\<lparr>m_miners := map (Miner_SetWork (m_work s1)) (m_miners s1)\<rparr>
        in resetTimer now s2)"

definition SetWorkpackageDirty :: "Farm \<Rightarrow> Farm" where
  "SetWorkpackageDirty s = s\<lparr>m_miners := map Miner_SetWorkpackageDirty (m_miners s)\<rparr>"

section \<open>Pool lifecycle\<close>

text \<open>
  \<^verbatim>\<open>internalStop\<close> calls \<^verbatim>\<open>Kill\<close> on every handle and clears the vector, which
  drops the handles; nothing of a killed handle stays in the farm.
\<close>

definition internalStop :: "Farm \<Rightarrow> Farm" where
  "internalStop s =
     (if \<not> m_isMining s then s
      else s\<lparr>m_miners := [], m_isMining := False\<rparr>)"

text \<open>
  The body of the allocation loop for an enabled, initialized device: the creator class
  and the name chosen from the type bits, then either the message for a device without
  kernel or the new handle.
\<close>

definition allocateOne :: "U32 \<Rightarrow> GpuInfo \<Rightarrow> GpuInfo \<times> Miner list \<times> Message list" where
  "allocateOne globalIndex gpu =
     (let (createType, name) =
            (if RHMINER_TEST_BIT (gpuType gpu) GpuType_NVIDIA then (ClassNvidia, NameGPU globalIndex)
             else if RHMINER_TEST_BIT (gpuType gpu) GpuType_AMD then (ClassOpenCL, NameGPU globalIndex)
             else if RHMINER_TEST_BIT (gpuType gpu) GpuType_CPU then (ClassCPU, NameCPU)
             else (ClassOpenCL, NameGPU globalIndex));
          gpu' = gpu\<lparr>gpuName := name\<rparr>
      in if RHMINER_TEST_BIT (gpuType gpu) GpuType_AMD
         then (gpu', [], [MsgNoKernel (deviceID gpu) (deviceName gpu)])
         else (gpu', [UpdateWorkSize 0 (CreateMiner createType globalIndex)], []))"

text \<open>
  The allocation loop of \<^verbatim>\<open>start\<close> (lines 76 to 107). The macro
  \<^verbatim>\<open>RHMINER_RETURN_ON_EXIT_FLAG_EX(false)\<close> is defined elsewhere; by its name and
  argument it makes \<^verbatim>\<open>start\<close> return \<^verbatim>\<open>false\<close> when the application's exit flag is
  up. The flag is shared with other threads, so it is read anew in each iteration:
  \<open>exitFlag i\<close> is the reading in the iteration whose \<^verbatim>\<open>globalIndex\<close> is \<open>i\<close>.
  A failed \<^verbatim>\<open>RHMINER_ASSERT\<close> ends the process. The loop gives back how it ended,
  the inventory with the names it has set, the new handles and what it printed.
\<close>

datatype LoopExit = LoopDone | LoopExitFlag | LoopAssert

fun allocateMiners ::
  "(U32 \<Rightarrow> bool) \<Rightarrow> U32 \<Rightarrow> GpuInfo list \<Rightarrow> LoopExit \<times> GpuInfo list \<times> Miner list \<times> Message list"
where
  "allocateMiners exitFlag globalIndex [] = (LoopDone, [], [], [])"
| "allocateMiners exitFlag globalIndex (gpu # rest) =
     (if exitFlag globalIndex then (LoopExitFlag, gpu # rest, [], [])
      else if enabled gpu then
        (if \<not> initialized gpu then (LoopAssert, gpu # rest, [], [MsgAssertFailed])
         else
           (case allocateOne globalIndex gpu of
              (gpu', ms, msgs) \<Rightarrow>
                (case allocateMiners exitFlag (globalIndex + 1) rest of
                   (ex, gpus', ms', msgs') \<Rightarrow> (ex, gpu' # gpus', ms @ ms', msgs @ msgs'))))
      else
        (case allocateMiners exitFlag (globalIndex + 1) rest of
           (ex, gpus', ms', msgs') \<Rightarrow> (ex, gpu # gpus', ms', msgs')))"

text \<open>The registration loop (lines 114 to 122).\<close>

definition registerMiners :: "Miner list \<Rightarrow> Miner list \<Rightarrow> Miner list" where
  "registerMiners newMiners pool =
     fold (\<lambda>miner pool. pool @ [StartWorking (InitFromFarm (of_nat (length pool)) miner)])
       newMiners pool"

definition start :: "(U32 \<Rightarrow> bool) \<Rightarrow> U64 \<Rightarrow> Farm \<Rightarrow> bool result" where
  "start exitFlag now s =
     (if m_isMining s then Returns True s
      else
        let s1 = s\<lparr>m_solutionStats := Begin (m_solutionStats s)\<rparr>
        in if m_miners s1 \<noteq> []
           then Returns True (s1\<lparr>printed := printed s1 @ [MsgStartWhileRunning]\<rparr>)
           else
             (case allocateMiners exitFlag 0 (Gpus s1) of
                (ex, gpus', newMiners, msgs) \<Rightarrow>
                  let s2 = s1\<lparr>Gpus := gpus', printed := printed s1 @ msgs\<rparr>
                  in (case ex of
                        LoopExitFlag \<Rightarrow> Returns False s2
                      | LoopAssert \<Rightarrow> Terminates s2
                      | LoopDone \<Rightarrow>
                          let s3 = s2\<lparr>m_miners := registerMiners newMiners (m_miners s2)\<rparr>;
                              s4 = s3\<lparr>m_minersCount := of_nat (length (m_miners s3))\<rparr>
                          in if m_minersCount s4 = 0
                             then Terminates (s4\<lparr>printed := printed s4 @ [MsgNoCpuGpu]\<rparr>)
                             else Returns True (resetTimer now (s4\<lparr>m_isMining := True\<rparr>)))))"

text \<open>
  \<^verbatim>\<open>deadCount\<close> is an \<^verbatim>\<open>unsigned\<close> and wraps; the vector's size is a 64-bit
  \<^verbatim>\<open>size_t\<close>, to which \<^verbatim>\<open>deadCount\<close> is widened for the comparison.
\<close>

definition countDead :: "Miner list \<Rightarrow> U32" where
  "countDead ms = fold (\<lambda>m deadCount. if isStopped m then deadCount + 1 else deadCount) ms 0"

definition DetectDeadMiners :: "Farm \<Rightarrow> bool \<times> Farm" where
  "DetectDeadMiners s =
     (let deadCount = countDead (m_miners s)
      in if (of_nat (length (m_miners s)) :: U64) = ucast deadCount \<and> deadCount \<noteq> 0
         then (True, internalStop s)
         else (False, s))"

section \<open>Progress aggregation\<close>

text \<open>
  One iteration of the loop of lines 232 to 251. The rate is computed in single
  precision, \<^verbatim>\<open>round(hcount / (float)(dt / 1000.0f))\<close>, and converted to \<^verbatim>\<open>U32\<close>;
  floating point is outside this embedding, so the conversion is the parameter
  \<open>rate\<close>, from the counter and the elapsed milliseconds to the rate. The loop index is
  an \<^verbatim>\<open>int\<close>; the loop is a traversal of the pool, which is what it does for pools of
  fewer than \<open>2 ^ 31\<close> workers.
\<close>

definition progressStep ::
  "(U64 \<Rightarrow> U32 \<Rightarrow> U32) \<Rightarrow> U32 \<Rightarrow> SolutionStats \<Rightarrow> Miner
     \<Rightarrow> U32 \<times> WorkingProgress \<Rightarrow> U32 \<times> WorkingProgress"
where
  "progressStep rate dt stats m acc =
     (case acc of
        (deadCount, p) \<Rightarrow>
          let deadCount' = (if isStopped m then deadCount + 1 else deadCount);
              hcount = GetHashRatePerSec m;
              minerHashRate = rate hcount dt;
              (t, f) = GetTemp m
          in (deadCount',
              p\<lparr>totalHashRate := totalHashRate p + ucast minerHashRate,
                minersHasheRate := minersHasheRate p @ [minerHashRate],
                gpuGlobalIndex := gpuGlobalIndex p @ [getAbsoluteIndex m],
                acceptedShares := acceptedShares p @ [getAccepted stats (uint (getAbsoluteIndex m))],
                rejectedShares := rejectedShares p @ [getRejected stats (uint (getAbsoluteIndex m))],
                temperature := temperature p @ [t],
                fan := fan p @ [f]\<rparr>))"

text \<open>The merge of the rates into the peak store (lines 258 to 270).\<close>

definition mergePeaks :: "U32 list \<Rightarrow> U32 list \<Rightarrow> U32 list" where
  "mergePeaks peak rates =
     (let peak0 = (if length peak \<noteq> length rates then map (\<lambda>a. 0) rates else peak)
      in fold (\<lambda>i pk. if rates ! i > pk ! i then pk[i := rates ! i] else pk)
           [0..<length rates] peak0)"

text \<open>
  \<open>ta\<close>, \<open>tb\<close>, \<open>tc\<close> are the clock readings of lines 225, 226 and 229. The
  argument \<^verbatim>\<open>reset\<close> is not used by the function.
\<close>

definition miningProgress ::
  "(U64 \<Rightarrow> U32 \<Rightarrow> U32) \<Rightarrow> U64 \<Rightarrow> U64 \<Rightarrow> U64 \<Rightarrow> bool \<Rightarrow> Farm \<Rightarrow> WorkingProgress \<times> Farm"
where
  "miningProgress rate ta tb tc reset s =
     (let s1 = (if m_lastProgressTime s = 0 then s\<lparr>m_lastProgressTime := ta\<rparr> else s);
          dt0 = (ucast (tb - m_lastProgressTime s1) :: U32);
          dt = (if dt0 < 100 then 100 else dt0);
          s2 = s1\<lparr>m_lastProgressTime := tc\<rparr>;
          (deadCount, p) =
             fold (progressStep rate dt (m_solutionStats s2)) (m_miners s2)
               (0, WorkingProgress_init);
          s3 = (if (of_nat (length (m_miners s2)) :: U64) = ucast deadCount \<and> deadCount \<noteq> 0
                then internalStop s2 else s2);
          peak = mergePeaks (m_minersHasheRatePeak s3) (minersHasheRate p);
          s4 = s3\<lparr>m_minersHasheRatePeak := peak,
                  m_progress := p\<lparr>minersHasheRatePeak := peak\<rparr>\<rparr>
      in (m_progress s4, s4))"

text \<open>
  A sequence of polls. Between two polls the workers go on counting, stop, or are
  replaced by a restart: each poll comes with the pool as it stands when the poll is
  made, and with its three clock readings.
\<close>

fun snapshots ::
  "(U64 \<Rightarrow> U32 \<Rightarrow> U32) \<Rightarrow> Farm \<Rightarrow> (Miner list \<times> U64 \<times> U64 \<times> U64) list \<Rightarrow> Farm"
where
  "snapshots rate s [] = s"
| "snapshots rate s ((pool, ta, tb, tc) # polls) =
     snapshots rate (snd (miningProgress rate ta tb tc False (s\<lparr>m_miners := pool\<rparr>))) polls"

section \<open>Submission pipeline\<close>

record Solution =
  solutionNonce :: nat
  solutionGpuIndex :: U32

text \<open>What a call of the acceptor callback \<^verbatim>\<open>m_onSolutionFound\<close> does: return or throw.\<close>

datatype AcceptorOutcome = AcceptorReturned | AcceptorRaised

text \<open>
  \<^verbatim>\<open>PurgeThreadInternal\<close>: one iteration of its loop deletes the thread object of a
  completed record or copies the record into \<^verbatim>\<open>newsub\<close>.
\<close>

definition purgeStep ::
  "U32 \<times> (U32 \<times> bool) \<Rightarrow> (U32 \<times> (U32 \<times> bool)) list \<times> U32 list
     \<Rightarrow> (U32 \<times> (U32 \<times> bool)) list \<times> U32 list"
where
  "purgeStep it acc =
     (case acc of
        (newsub, threads) \<Rightarrow>
          if snd (snd it) then (newsub, removeAll (fst (snd it)) threads)
          else (AList.update (fst it) (snd it) newsub, threads))"

definition PurgeThreadInternal :: "Farm \<Rightarrow> Farm" where
  "PurgeThreadInternal s =
     (if length (m_submiters s) \<noteq> 0
      then
        (case fold purgeStep (m_submiters s) ([], threadObjects s) of
           (newsub, threads) \<Rightarrow> s\<lparr>m_submiters := newsub, threadObjects := threads\<rparr>)
      else s)"

text \<open>
  \<^verbatim>\<open>submitProof\<close> runs on two threads. Its caller increments the id, creates the
  thread object, waits for the thread's \<^verbatim>\<open>started\<close> signal and then, holding the
  submission lock, registers the record and purges. The dispatched thread signals
  \<^verbatim>\<open>started\<close>, calls the acceptor, sleeps 100 ms and then, holding the same lock,
  looks its record up and sets its flag. Nothing but that sleep orders the thread's
  critical section against the caller's, so the model has the pieces and takes the
  order in which they run as an argument.
\<close>

text \<open>The caller up to the creation of the thread (lines 306 to 313).\<close>

definition submitProof_dispatch :: "Farm \<Rightarrow> U32 \<times> Farm" where
  "submitProof_dispatch s =
     (let s1 = s\<lparr>m_submitID := m_submitID s + 1\<rparr>;
          sid = m_submitID s1
      in (sid, s1\<lparr>threadObjects := threadObjects s1 @ [sid]\<rparr>))"

text \<open>The caller's critical section (lines 351 to 358).\<close>

definition submitProof_register :: "U32 \<Rightarrow> Farm \<Rightarrow> Farm" where
  "submitProof_register sid s =
     PurgeThreadInternal (s\<lparr>m_submiters := AList.update sid (sid, False) (m_submiters s)\<rparr>)"

text \<open>
  The thread's call of the acceptor (lines 327 to 334). It stands in \<^verbatim>\<open>try\<close> with
  \<^verbatim>\<open>catch (...)\<close>: when the acceptor throws, the handler prints and the body goes on.
\<close>

definition invokeAcceptor :: "(Solution \<Rightarrow> AcceptorOutcome) \<Rightarrow> Solution \<Rightarrow> Farm \<Rightarrow> Farm" where
  "invokeAcceptor f solLocal s =
     (case f solLocal of
        AcceptorReturned \<Rightarrow> s
      | AcceptorRaised \<Rightarrow> s\<lparr>printed := printed s @ [MsgSubmitAborted]\<rparr>)"

text \<open>
  The thread's critical section (lines 339 to 344): it looks its record up and, if the
  record is there, sets its flag.
\<close>

definition markComplete :: "U32 \<Rightarrow> Farm \<Rightarrow> Farm" where
  "markComplete idlocal s =
     (case map_of (m_submiters s) idlocal of
        None \<Rightarrow> s
      | Some fnd \<Rightarrow> s\<lparr>m_submiters := AList.update idlocal (fst fnd, True) (m_submiters s)\<rparr>)"

datatype SubmitStep = ThreadInvokes | ThreadMarks | CallerRegisters

fun submitStep ::
  "(Solution \<Rightarrow> AcceptorOutcome) \<Rightarrow> Solution \<Rightarrow> U32 \<Rightarrow> SubmitStep \<Rightarrow> Farm \<Rightarrow> Farm"
where
  "submitStep f sol sid ThreadInvokes s = invokeAcceptor f sol s"
| "submitStep f sol sid ThreadMarks s = markComplete sid s"
| "submitStep f sol sid CallerRegisters s = submitProof_register sid s"

text \<open>
  The three orders the program allows. The thread calls the acceptor before its
  critical section, and both come after the \<^verbatim>\<open>started\<close> signal the caller waits for;
  the caller's critical section can come last (the thread has ended before the caller
  gets the lock), between the two, or first.
\<close>

datatype SubmitOrder = ThreadEndsFirst | CallerBetween | CallerFirst

fun stepsBeforeReturn :: "SubmitOrder \<Rightarrow> SubmitStep list" where
  "stepsBeforeReturn ThreadEndsFirst = [ThreadInvokes, ThreadMarks, CallerRegisters]"
| "stepsBeforeReturn CallerBetween = [ThreadInvokes, CallerRegisters]"
| "stepsBeforeReturn CallerFirst = [CallerRegisters]"

fun stepsAfterReturn :: "SubmitOrder \<Rightarrow> SubmitStep list" where
  "stepsAfterReturn ThreadEndsFirst = []"
| "stepsAfterReturn CallerBetween = [ThreadMarks]"
| "stepsAfterReturn CallerFirst = [ThreadInvokes, ThreadMarks]"

text \<open>
  \<^verbatim>\<open>submitProof\<close> up to its return: the assertion that a callback is registered, the
  dispatch, and every step that runs before the caller leaves its critical section.
\<close>

definition submitProof ::
  "(Solution \<Rightarrow> AcceptorOutcome) option \<Rightarrow> Solution \<Rightarrow> SubmitOrder \<Rightarrow> Farm \<Rightarrow> U32 result"
where
  "submitProof m_onSolutionFound sol order s =
     (case m_onSolutionFound of
        None \<Rightarrow> Terminates (s\<lparr>printed := printed s @ [MsgAssertFailed]\<rparr>)
      | Some f \<Rightarrow>
          (case submitProof_dispatch s of
             (sid, s1) \<Rightarrow> Returns sid (fold (submitStep f sol sid) (stepsBeforeReturn order) s1)))"

text \<open>What the dispatched thread still does after \<^verbatim>\<open>submitProof\<close> has returned.\<close>

definition submitThread ::
  "(Solution \<Rightarrow> AcceptorOutcome) \<Rightarrow> Solution \<Rightarrow> U32 \<Rightarrow> SubmitOrder \<Rightarrow> Farm \<Rightarrow> Farm"
where
  "submitThread f sol idlocal order s = fold (submitStep f sol idlocal) (stepsAfterReturn order) s"

text \<open>\<^verbatim>\<open>stop\<close>: the purge under the submission lock, the sleep, then the teardown.\<close>

definition stop :: "Farm \<Rightarrow> Farm" where
  "stop s = internalStop (PurgeThreadInternal s)"

section \<open>Invariants of the farm\<close>

text \<open>
  The pool and the mining flag change together: \<^verbatim>\<open>start\<close> sets the flag in the
  critical section that fills the pool (and ends the process when the pool stays empty),
  \<^verbatim>\<open>internalStop\<close> clears both.
\<close>

definition poolConsistent :: "Farm \<Rightarrow> bool" where
  "poolConsistent s = (m_isMining s = (m_miners s \<noteq> []))"

text \<open>The keys of the submission map are distinct, as the keys of a \<^verbatim>\<open>std::map\<close> are.\<close>

definition submitersWellFormed :: "Farm \<Rightarrow> bool" where
  "submitersWellFormed s = distinct (map fst (m_submiters s))"

section \<open>Auxiliary notions for the statements\<close>

text \<open>
  The elapsed milliseconds a poll works with (lines 224 to 228): the difference to the
  previous poll, or to the first clock reading when there was none, cut to 32 bits and
  raised to at least 100.
\<close>

definition elapsedMs :: "U64 \<Rightarrow> U64 \<Rightarrow> Farm \<Rightarrow> U32" where
  "elapsedMs ta tb s =
     (let dt0 = (ucast (tb - (if m_lastProgressTime s = 0 then ta else m_lastProgressTime s)) :: U32)
      in if dt0 < 100 then 100 else dt0)"

text \<open>A poll that finds \<open>n\<close> workers in the pool.\<close>

definition pollSize :: "nat \<Rightarrow> Miner list \<times> U64 \<times> U64 \<times> U64 \<Rightarrow> bool" where
  "pollSize n poll = (length (fst poll) = n)"

text \<open>
  No device of the inventory yields a worker: each is disabled or has the AMD bit, for
  which \<^verbatim>\<open>start\<close> prints "No kernel for device" and constructs nothing.
\<close>

definition noDeviceUsable :: "GpuInfo list \<Rightarrow> bool" where
  "noDeviceUsable gpus =
     list_all (\<lambda>g. \<not> enabled g \<or> RHMINER_TEST_BIT (gpuType g) GpuType_AMD) gpus"

text \<open>The assertion of line 81 holds for every enabled device.\<close>

definition enabledInitialized :: "GpuInfo list \<Rightarrow> bool" where
  "enabledInitialized gpus = list_all (\<lambda>g. \<not> enabled g \<or> initialized g) gpus"

section \<open>Example states\<close>


text \<open>A farm that has counted two rejections, the last of them at 1000 ms.\<close>

definition staleExample :: Farm where
  "staleExample = (Farm_init [])\<lparr>m_consecutiveRejectedCount := 2, m_lastRejectedTimeMS := 1000\<rparr>"

text \<open>Three devices: a disabled CPU, an enabled AMD card, an enabled CPU.\<close>

definition offDevice :: GpuInfo where
  "offDevice = \<lparr>enabled = False, initialized = True, gpuType = [GpuType_CPU], deviceID = 0,
     deviceName = ''cpu'', gpuName = Unnamed\<rparr>"

definition amdDevice :: GpuInfo where
  "amdDevice = \<lparr>enabled = True, initialized = True, gpuType = [GpuType_AMD], deviceID = 1,
     deviceName = ''amd'', gpuName = Unnamed\<rparr>"

definition cpuDevice :: GpuInfo where
  "cpuDevice = \<lparr>enabled = True, initialized = True, gpuType = [GpuType_CPU], deviceID = 2,
     deviceName = ''cpu'', gpuName = Unnamed\<rparr>"

text \<open>The exit flag, up or down throughout a call of \<^verbatim>\<open>start\<close>.\<close>

definition exitFlagUp :: "U32 \<Rightarrow> bool" where
  "exitFlagUp i = True"

definition exitFlagDown :: "U32 \<Rightarrow> bool" where
  "exitFlagDown i = False"

text \<open>The farm after \<^verbatim>\<open>start\<close> on an inventory of the one enabled CPU.\<close>

definition startedExample :: Farm where
  "startedExample = final (start exitFlagDown 7 (Farm_init [cpuDevice]))"

text \<open>The same farm after \<^verbatim>\<open>start\<close> with the exit flag up.\<close>

definition exitingExample :: Farm where
  "exitingExample = final (start exitFlagUp 7 (Farm_init [cpuDevice]))"

text \<open>
  A rate conversion for the examples. With 1000 elapsed milliseconds and a counter
  below \<open>2 ^ 24\<close> the source's expression \<^verbatim>\<open>round(hcount / (float)(dt / 1000.0f))\<close> is
  exact and gives the counter itself.
\<close>

definition wholeSecondRate :: "U64 \<Rightarrow> U32 \<Rightarrow> U32" where
  "wholeSecondRate hcount dt = ucast hcount"

text \<open>A running worker whose counter reads \<open>h\<close>, and three polls one second apart.\<close>

definition countingWorker :: "U32 \<Rightarrow> U64 \<Rightarrow> Miner" where
  "countingWorker i h = (StartWorking (CreateMiner ClassCPU i))\<lparr>hashCount := h\<rparr>"

definition stoppedWorker :: "U32 \<Rightarrow> Miner" where
  "stoppedWorker i = (StartWorking (CreateMiner ClassCPU i))\<lparr>stopped := True\<rparr>"

definition pollTwoWorkers :: "Miner list \<times> U64 \<times> U64 \<times> U64" where
  "pollTwoWorkers = ([countingWorker 0 100, countingWorker 1 200], 1000, 2000, 2000)"

definition pollTwoSlower :: "Miner list \<times> U64 \<times> U64 \<times> U64" where
  "pollTwoSlower = ([countingWorker 0 30, countingWorker 1 500], 3000, 3000, 3000)"

definition pollOneWorker :: "Miner list \<times> U64 \<times> U64 \<times> U64" where
  "pollOneWorker = ([countingWorker 0 50], 3000, 3000, 3000)"

text \<open>A solution, an acceptor that throws on it, and two work packages.\<close>

definition exampleSolution :: Solution where
  "exampleSolution = \<lparr>solutionNonce = 42, solutionGpuIndex = 0\<rparr>"

definition throwingAcceptor :: "Solution \<Rightarrow> AcceptorOutcome" where
  "throwingAcceptor sol = AcceptorRaised"

text \<open>
  The fresh farm after a submission with that acceptor, in the order in which the thread
  ends before the caller registers the record.
\<close>

definition leakedExample :: Farm where
  "leakedExample =
     final (submitProof (Some throwingAcceptor) exampleSolution ThreadEndsFirst (Farm_init []))"

definition workA :: PascalWork where
  "workA = \<lparr>identity = 1, payload = 10\<rparr>"

definition workB :: PascalWork where
  "workB = \<lparr>identity = 2, payload = 20\<rparr>"

section \<open>Properties of the circuit breaker\<close>

lemma word_gap_mono:
  fixes l t t' :: U64
  assumes "l \<le> t" and "t \<le> t'" and "300000 < t - l"
  shows "300000 < t' - l"
  using assms by unat_arith

lemma AddRejectedSolution_reset_branch:
  assumes "\<not> withinQuietWindow (m_lastRejectedTimeMS s) tcmp"
  shows "AddRejectedSolution mx i tcmp tstore s =
     Returns () (s\<lparr>m_solutionStats := rejected i (m_solutionStats s),
                   m_consecutiveRejectedCount := 0\<rparr>)"
  using assms by (simp add: withinQuietWindow_def AddRejectedSolution_def Let_def)

text \<open>
  Once the counter is zero and the stored timestamp lies more than five minutes before a
  clock reading \<open>t\<close>, every later event leaves both as they are.
\<close>

lemma session_stale:
  assumes "\<not> withinQuietWindow (m_lastRejectedTimeMS s) t"
    and "m_consecutiveRejectedCount s = 0"
    and "m_lastRejectedTimeMS s \<le> t"
    and "list_all (notBefore t) es"
  shows "\<exists>s'. session mx s es = Returns () s' \<and> m_consecutiveRejectedCount s' = 0
            \<and> m_lastRejectedTimeMS s' = m_lastRejectedTimeMS s"
  using assms
proof (induction es arbitrary: s)
  case Nil
  then show ?case by simp
next
  case (Cons e es)
  show ?case
  proof (cases e)
    case (Accepted j)
    have "\<exists>s'. session mx (AddAcceptedSolution j s) es = Returns () s'
            \<and> m_consecutiveRejectedCount s' = 0
            \<and> m_lastRejectedTimeMS s' = m_lastRejectedTimeMS (AddAcceptedSolution j s)"
      using Cons.prems by (intro Cons.IH) (simp_all add: AddAcceptedSolution_def)
    then show ?thesis using Accepted by (simp add: AddAcceptedSolution_def)
  next
    case (Rejected j tc ts)
    then have le: "t \<le> tc" using Cons.prems by simp
    have nz: "m_lastRejectedTimeMS s \<noteq> 0" and far: "300000 < t - m_lastRejectedTimeMS s"
      using Cons.prems(1) by (simp_all add: withinQuietWindow_def)
    have gap: "300000 < tc - m_lastRejectedTimeMS s"
      using word_gap_mono [OF Cons.prems(3) le far] .
    let ?s1 = "s\<lparr>m_solutionStats := rejected j (m_solutionStats s),
                  m_consecutiveRejectedCount := 0\<rparr>"
    have step: "AddRejectedSolution mx j tc ts s = Returns () ?s1"
      using nz gap by (intro AddRejectedSolution_reset_branch) (simp add: withinQuietWindow_def)
    have "\<exists>s'. session mx ?s1 es = Returns () s' \<and> m_consecutiveRejectedCount s' = 0
            \<and> m_lastRejectedTimeMS s' = m_lastRejectedTimeMS ?s1"
      using Cons.prems by (intro Cons.IH) simp_all
    then show ?thesis using Rejected step by simp
  qed
qed







text \<open>
  Claim C2, as amended. On a fresh farm whose configured maximum is above two, three
  rejections at the clock readings \<open>T0\<close>, \<open>T0 + 60000\<close> and a reading more than five
  minutes past the second leave the counter at 1, at 2 and at 0: the third call takes
  the reset branch, which sets the counter to zero and does not count the call. (The
  second reading must not be the zero that stands for "no timestamp".)
\<close>

theorem rejection_sequence_counters:
  assumes "2 < (word_of_int mx :: U32)" and "T0 + 60000 \<noteq> 0"
    and "300000 < tlate - (T0 + 60000)"
  shows "(\<exists>s1. session mx (Farm_init g) [Rejected i T0 T0] = Returns () s1
            \<and> m_consecutiveRejectedCount s1 = 1)
    \<and> (\<exists>s2. session mx (Farm_init g)
               [Rejected i T0 T0, Rejected i (T0 + 60000) (T0 + 60000)] = Returns () s2
            \<and> m_consecutiveRejectedCount s2 = 2)
    \<and> (\<exists>s3. session mx (Farm_init g)
               [Rejected i T0 T0, Rejected i (T0 + 60000) (T0 + 60000),
                Rejected i tlate tlate] = Returns () s3
            \<and> m_consecutiveRejectedCount s3 = 0)"
proof -
  have m1: "\<not> (word_of_int mx :: U32) \<le> 1" using assms(1) by unat_arith
  have m2: "\<not> (word_of_int mx :: U32) \<le> 2" using assms(1) by unat_arith
  show ?thesis using assms(2,3) m1 m2
    by (simp add: AddRejectedSolution_def Let_def Farm_init_def)
qed

theorem rejection_sequence_counters_witness:
  "(\<exists>s1. session 10 (Farm_init []) [Rejected 0 0 0] = Returns () s1
            \<and> m_consecutiveRejectedCount s1 = 1)
    \<and> (\<exists>s2. session 10 (Farm_init [])
               [Rejected 0 0 0, Rejected 0 (0 + 60000) (0 + 60000)] = Returns () s2
            \<and> m_consecutiveRejectedCount s2 = 2)
    \<and> (\<exists>s3. session 10 (Farm_init [])
               [Rejected 0 0 0, Rejected 0 (0 + 60000) (0 + 60000),
                Rejected 0 420000 420000] = Returns () s3
            \<and> m_consecutiveRejectedCount s3 = 0)"
proof -
  have a: "2 < (word_of_int 10 :: U32)" by simp
  have b: "(0::U64) + 60000 \<noteq> 0" by simp
  have c: "300000 < (420000::U64) - (0 + 60000)" by simp
  show ?thesis
    by (rule rejection_sequence_counters [OF a b c])
qed

text \<open>
  Claim C2 as stated fails at its own example: rejections at 0 s, at 60 s and six
  minutes after the second leave the counter at zero after the third call, not at one.
\<close>

theorem rejection_sequence_third_is_zero:
  "m_consecutiveRejectedCount (final (session 10 (Farm_init [])
     [Rejected 0 0 0, Rejected 0 60000 60000, Rejected 0 420000 420000])) \<noteq> 1"
  by (simp add: AddRejectedSolution_def Let_def Farm_init_def word_le_nat_alt)

text \<open>
  Where the stored timestamp is that of the rejection before, the breaker works: with
  the configured maximum 3 and the counter at zero, three rejections that each fall
  within the quiet window of the stored timestamp end the process on the third call,
  after the message has been printed, and not before; with an accepted solution between
  two of them the process does not end.
\<close>

lemma in_window_rejections_terminate:
  assumes "m_consecutiveRejectedCount s = 0"
    and "withinQuietWindow (m_lastRejectedTimeMS s) ca"
    and "withinQuietWindow ta cb"
    and "withinQuietWindow tb cc"
  shows "(\<exists>s2. session 3 s [Rejected i ca ta, Rejected j cb tb] = Returns () s2
            \<and> m_consecutiveRejectedCount s2 = 2)
    \<and> (\<exists>s3. session 3 s [Rejected i ca ta, Rejected j cb tb, Rejected k cc tc] = Terminates s3
            \<and> m_consecutiveRejectedCount s3 = 3
            \<and> printed s3 = printed s @ [MsgTooManySubmitErrors])
    \<and> \<not> terminated (session 3 s [Rejected i ca ta, Accepted a, Rejected j cb tb, Rejected k cc tc])
    \<and> \<not> terminated (session 3 s [Rejected i ca ta, Rejected j cb tb, Accepted a, Rejected k cc tc])
    \<and> m_consecutiveRejectedCount (AddAcceptedSolution a s') = 0"
  using assms
  by (simp add: withinQuietWindow_def AddRejectedSolution_def AddAcceptedSolution_def
      Let_def word_le_nat_alt)

text \<open>
  Claim C3 says that, with the configured maximum 3, three rejections all within the
  five-minute quiet window end the process on the third. The code does not do that once
  a rejection has taken the reset branch. On a fresh farm with the maximum 3, after
  rejections at 1000 ms and at 400000 ms (the second resets the counter and, unlike the
  incrementing branch at line 405, stores no timestamp), the rejections at 400001,
  400002 and 400003 ms lie one millisecond apart; each is compared with the timestamp
  of 1000 ms and takes the reset branch. The process does not end and the counter is
  zero.
\<close>

theorem rejections_after_reset_never_terminate:
  "\<not> terminated (session 3 (Farm_init [])
       [Rejected 0 1000 1000, Rejected 0 400000 400000,
        Rejected 0 400001 400001, Rejected 0 400002 400002, Rejected 0 400003 400003])
   \<and> m_consecutiveRejectedCount (final (session 3 (Farm_init [])
       [Rejected 0 1000 1000, Rejected 0 400000 400000,
        Rejected 0 400001 400001, Rejected 0 400002 400002, Rejected 0 400003 400003])) = 0
   \<and> m_lastRejectedTimeMS (final (session 3 (Farm_init [])
       [Rejected 0 1000 1000, Rejected 0 400000 400000,
        Rejected 0 400001 400001, Rejected 0 400002 400002, Rejected 0 400003 400003])) = 1000"
  by (simp add: AddRejectedSolution_def Let_def Farm_init_def word_le_nat_alt)

text \<open>
  Claim C4. \<^verbatim>\<open>AddRejectedSolution\<close> stores the clock reading as the last-rejection
  timestamp on the branch that increments the counter, and leaves the timestamp as it is
  on the reset branch. So after a call that takes the reset branch, with a clock that
  does not run backwards (the reading is not before the stored timestamp, and later
  readings are not before this one), every later rejection is compared with the same
  timestamp and takes the reset branch too: whatever accepted and rejected solutions
  follow, the process does not end, the counter is zero and the timestamp is the old one.
\<close>

theorem stale_rejection_timestamp:
  "m_lastRejectedTimeMS (final (AddRejectedSolution mx i tcmp tstore s)) =
     (if withinQuietWindow (m_lastRejectedTimeMS s) tcmp then tstore
      else m_lastRejectedTimeMS s)
   \<and> (\<not> withinQuietWindow (m_lastRejectedTimeMS s) tcmp
        \<and> m_lastRejectedTimeMS s \<le> tcmp \<and> list_all (notBefore tcmp) es
      \<longrightarrow> (\<exists>s1. AddRejectedSolution mx i tcmp tstore s = Returns () s1
             \<and> m_lastRejectedTimeMS s1 = m_lastRejectedTimeMS s
             \<and> m_consecutiveRejectedCount s1 = 0
             \<and> (\<exists>s2. session mx s1 es = Returns () s2
                   \<and> m_consecutiveRejectedCount s2 = 0
                   \<and> m_lastRejectedTimeMS s2 = m_lastRejectedTimeMS s)))"
proof (intro conjI impI)
  show "m_lastRejectedTimeMS (final (AddRejectedSolution mx i tcmp tstore s)) =
     (if withinQuietWindow (m_lastRejectedTimeMS s) tcmp then tstore
      else m_lastRejectedTimeMS s)"
    by (simp add: withinQuietWindow_def AddRejectedSolution_def Let_def)
next
  assume h: "\<not> withinQuietWindow (m_lastRejectedTimeMS s) tcmp
        \<and> m_lastRejectedTimeMS s \<le> tcmp \<and> list_all (notBefore tcmp) es"
  let ?s1 = "s\<lparr>m_solutionStats := rejected i (m_solutionStats s),
                m_consecutiveRejectedCount := 0\<rparr>"
  have step: "AddRejectedSolution mx i tcmp tstore s = Returns () ?s1"
    using h by (intro AddRejectedSolution_reset_branch) simp
  have "\<exists>s2. session mx ?s1 es = Returns () s2 \<and> m_consecutiveRejectedCount s2 = 0
            \<and> m_lastRejectedTimeMS s2 = m_lastRejectedTimeMS ?s1"
    using h by (intro session_stale [where t = tcmp]) simp_all
  then show "\<exists>s1. AddRejectedSolution mx i tcmp tstore s = Returns () s1
             \<and> m_lastRejectedTimeMS s1 = m_lastRejectedTimeMS s
             \<and> m_consecutiveRejectedCount s1 = 0
             \<and> (\<exists>s2. session mx s1 es = Returns () s2
                   \<and> m_consecutiveRejectedCount s2 = 0
                   \<and> m_lastRejectedTimeMS s2 = m_lastRejectedTimeMS s)"
    using step by simp
qed

text \<open>
  The theorem on a farm that has counted two rejections, the last at 1000 ms: a
  rejection at 400000 ms resets, and the rejections one and two milliseconds later,
  although each follows a rejection at once, reset again.
\<close>

theorem stale_rejection_timestamp_witness:
  "m_lastRejectedTimeMS (final (AddRejectedSolution 3 0 400000 400000 staleExample)) = 1000
   \<and> (\<exists>s1. AddRejectedSolution 3 0 400000 400000 staleExample = Returns () s1
         \<and> m_lastRejectedTimeMS s1 = m_lastRejectedTimeMS staleExample
         \<and> m_consecutiveRejectedCount s1 = 0
         \<and> (\<exists>s2. session 3 s1
                  [Rejected 0 400001 400001, Accepted 0, Rejected 1 400002 400002] = Returns () s2
               \<and> m_consecutiveRejectedCount s2 = 0
               \<and> m_lastRejectedTimeMS s2 = m_lastRejectedTimeMS staleExample))"
proof -
  have a: "\<not> withinQuietWindow (m_lastRejectedTimeMS staleExample) 400000"
    by (simp add: staleExample_def Farm_init_def withinQuietWindow_def)
  have b: "m_lastRejectedTimeMS staleExample \<le> 400000"
    by (simp add: staleExample_def Farm_init_def)
  have c: "list_all (notBefore 400000)
      [Rejected 0 400001 400001, Accepted 0, Rejected 1 400002 400002]"
    by simp
  have d: "m_lastRejectedTimeMS staleExample = 1000"
    by (simp add: staleExample_def Farm_init_def)
  show ?thesis
    using a b c d
      stale_rejection_timestamp [of 3 0 400000 400000 staleExample
        "[Rejected 0 400001 400001, Accepted 0, Rejected 1 400002 400002]"]
    by simp
qed

section \<open>Properties of work distribution\<close>

text \<open>
  Claim C5. Whatever package is installed and whatever package is passed to
  \<^verbatim>\<open>SetWork\<close>: if a package is installed and its identity token equals the new one's,
  the installed package stays, every worker is handed it, and the throughput-timing
  reference is left as it is; if nothing is installed or the tokens differ, the new
  package is installed, every worker is handed it, and the timing reference becomes the
  current clock reading. Either way every worker ends up holding the installed package,
  not paused. A second \<^verbatim>\<open>SetWork\<close> right after the first resets the reference if and
  only if its token differs from the first one's.
\<close>

theorem SetWork_identity:
  "(\<forall>w. m_work s = Some w \<and> identity w = identity wp \<longrightarrow>
       m_work (SetWork wp now s) = Some w
     \<and> m_lastStart (SetWork wp now s) = m_lastStart s
     \<and> m_miners (SetWork wp now s) = map (Miner_SetWork (Some w)) (m_miners s))
   \<and> (m_work s = None \<or> (\<exists>w. m_work s = Some w \<and> identity w \<noteq> identity wp) \<longrightarrow>
       m_work (SetWork wp now s) = Some wp
     \<and> m_lastStart (SetWork wp now s) = now
     \<and> m_miners (SetWork wp now s) = map (Miner_SetWork (Some wp)) (m_miners s))
   \<and> list_all (\<lambda>m. minerWork m = m_work (SetWork wp now s) \<and> \<not> paused m)
        (m_miners (SetWork wp now s))
   \<and> m_lastStart (SetWork wp' now' (SetWork wp now s)) =
        (if identity wp' = identity wp then m_lastStart (SetWork wp now s) else now')"
  by (auto simp add: SetWork_def IsSame_def resetTimer_def Let_def Miner_SetWork_def list_all_iff
      split: option.splits)

text \<open>
  The theorem on the started example farm: a first package is installed and resets the
  reference to 20; a package with the same token, announced at 30, leaves the reference
  at 20; a package with another token, announced at 40, moves it to 40.
\<close>

theorem SetWork_identity_witness:
  "m_work (SetWork workA 20 startedExample) = Some workA
   \<and> m_lastStart (SetWork workA 20 startedExample) = 20
   \<and> m_lastStart (SetWork (workA\<lparr>payload := 11\<rparr>) 30 (SetWork workA 20 startedExample)) = 20
   \<and> m_lastStart (SetWork workB 40 (SetWork workA 20 startedExample)) = 40"
proof -
  have none: "m_work startedExample = None"
    by (simp add: startedExample_def start_def Let_def Farm_init_def cpuDevice_def
        exitFlagDown_def allocateOne_def RHMINER_TEST_BIT_def registerMiners_def resetTimer_def)
  have ids: "identity (workA\<lparr>payload := 11\<rparr>) = identity workA" "identity workB \<noteq> identity workA"
    by (simp_all add: workA_def workB_def)
  show ?thesis
    using none ids
      SetWork_identity [of startedExample workA 20 "workA\<lparr>payload := 11\<rparr>" 30]
      SetWork_identity [of startedExample workA 20 workB 40]
    by simp
qed

section \<open>Properties of the pool lifecycle\<close>

lemma registerMiners_Nil: "registerMiners [] pool = pool"
  by (simp add: registerMiners_def)

lemma start_guard_state:
  assumes "m_isMining s \<or> m_miners s \<noteq> []"
  shows "\<exists>s'. start ef now s = Returns True s' \<and> m_miners s' = m_miners s
     \<and> m_isMining s' = m_isMining s \<and> Gpus s' = Gpus s"
  using assms by (auto simp add: start_def Let_def)

lemma start_success_guarded:
  assumes "start ef now s = Returns True s1"
  shows "m_isMining s1 \<or> m_miners s1 \<noteq> []"
  using assms
  by (auto simp add: start_def Let_def resetTimer_def split: if_splits prod.splits LoopExit.splits)

lemma start_example:
  "start exitFlagDown 7 (Farm_init [cpuDevice]) = Returns True startedExample"
  by (simp add: startedExample_def start_def Let_def Farm_init_def cpuDevice_def
      exitFlagDown_def allocateOne_def RHMINER_TEST_BIT_def registerMiners_def resetTimer_def)

lemma startedExample_pool:
  "m_miners startedExample = [StartWorking (InitFromFarm 0 (UpdateWorkSize 0 (CreateMiner ClassCPU 0)))]
   \<and> m_isMining startedExample"
  by (simp add: startedExample_def start_def Let_def Farm_init_def cpuDevice_def
      exitFlagDown_def allocateOne_def RHMINER_TEST_BIT_def registerMiners_def resetTimer_def)

lemma registerMiners_length: "length (registerMiners ms pool) = length pool + length ms"
  unfolding registerMiners_def by (induction ms arbitrary: pool) simp_all

text \<open>
  With the exit flag down and the assertion holding, the device loop runs to its end;
  it constructs at most one worker per device, and at least one unless no device is
  usable.
\<close>

lemma allocate_all:
  assumes "enabledInitialized gpus"
  shows "\<exists>gpus' ms msgs. allocateMiners (\<lambda>i. False) gi gpus = (LoopDone, gpus', ms, msgs)
     \<and> length ms \<le> length gpus \<and> (\<not> noDeviceUsable gpus \<longrightarrow> ms \<noteq> [])"
  using assms
proof (induction gpus arbitrary: gi)
  case Nil
  then show ?case by (simp add: noDeviceUsable_def)
next
  case (Cons g gs)
  then have "enabledInitialized gs" by (simp add: enabledInitialized_def)
  from Cons.IH [OF this, of "gi + 1"] obtain gpus' ms msgs
    where r: "allocateMiners (\<lambda>i. False) (gi + 1) gs = (LoopDone, gpus', ms, msgs)"
      and l: "length ms \<le> length gs" and n: "\<not> noDeviceUsable gs \<longrightarrow> ms \<noteq> []"
    by blast
  show ?case using Cons.prems r l n
    by (auto simp add: noDeviceUsable_def enabledInitialized_def allocateOne_def Let_def)
qed

lemma start_succeeds:
  assumes "\<not> m_isMining s" and "m_miners s = []" and "\<forall>i. \<not> ef i"
    and "enabledInitialized (Gpus s)" and "\<not> noDeviceUsable (Gpus s)"
    and "length (Gpus s) < 2 ^ 32"
  shows "\<exists>s1. start ef now s = Returns True s1 \<and> m_miners s1 \<noteq> [] \<and> m_isMining s1"
proof -
  from assms(3) have ef: "ef = (\<lambda>i. False)" by auto
  from allocate_all [OF assms(4), of 0] assms(5) obtain gpus' ms msgs
    where al: "allocateMiners (\<lambda>i. False) 0 (Gpus s) = (LoopDone, gpus', ms, msgs)"
      and l: "length ms \<le> length (Gpus s)" and n: "ms \<noteq> []"
    by blast
  have len: "length (registerMiners ms []) = length ms" by (simp add: registerMiners_length)
  have "length ms < 2 ^ 32" using l assms(6) by linarith
  then have "unat (of_nat (length ms) :: U32) = length ms" by (simp add: unat_of_nat)
  then have nz: "(of_nat (length ms) :: U32) \<noteq> 0" using n by (auto simp add: unat_0_iff [symmetric] simp del: unat_0_iff)
  have ne: "registerMiners ms [] \<noteq> []" using len n by (metis length_0_conv)
  show ?thesis
    using assms(1,2) al nz ne unfolding ef
    by (simp add: start_def Let_def len resetTimer_def)
qed

text \<open>
  Claim C7, as amended. A call of \<^verbatim>\<open>start\<close> while mining is active or while the pool
  is not empty returns \<^verbatim>\<open>true\<close> and leaves the pool, the mining flag and the inventory
  as they are: no worker is constructed or registered. So of two consecutive calls of
  \<^verbatim>\<open>start\<close> with no \<^verbatim>\<open>stop\<close> in between, the second returns \<^verbatim>\<open>true\<close> with the pool
  unchanged whenever the first has returned \<^verbatim>\<open>true\<close>. The first returns \<^verbatim>\<open>true\<close>,
  with a pool that is not empty, when it is called on a farm that is not mining and has
  an empty pool, the exit flag is not up during its device loop, every enabled device is
  initialized, at least one enabled device is usable, and the inventory has fewer than
  \<open>2 ^ 32\<close> devices; then both calls return \<^verbatim>\<open>true\<close>.
\<close>

theorem start_twice:
  "(m_isMining s \<or> m_miners s \<noteq> [] \<longrightarrow>
      (\<exists>s'. start ef now s = Returns True s' \<and> m_miners s' = m_miners s
         \<and> m_isMining s' = m_isMining s \<and> Gpus s' = Gpus s))
   \<and> (start ef now s = Returns True s1 \<longrightarrow>
      (\<exists>s2. start ef' now' s1 = Returns True s2 \<and> m_miners s2 = m_miners s1
         \<and> m_isMining s2 = m_isMining s1 \<and> Gpus s2 = Gpus s1))
   \<and> (\<not> m_isMining s \<and> m_miners s = [] \<and> (\<forall>i. \<not> ef i)
        \<and> enabledInitialized (Gpus s) \<and> \<not> noDeviceUsable (Gpus s)
        \<and> length (Gpus s) < 2 ^ 32 \<longrightarrow>
      (\<exists>sa sb. start ef now s = Returns True sa \<and> m_miners sa \<noteq> [] \<and> m_isMining sa
         \<and> start ef' now' sa = Returns True sb \<and> m_miners sb = m_miners sa
         \<and> m_isMining sb = m_isMining sa \<and> Gpus sb = Gpus sa))"
proof -
  have a: "\<exists>s'. start ef now s = Returns True s' \<and> m_miners s' = m_miners s
         \<and> m_isMining s' = m_isMining s \<and> Gpus s' = Gpus s"
    if "m_isMining s \<or> m_miners s \<noteq> []"
    using that by (rule start_guard_state)
  have b: "\<exists>s2. start ef' now' s1 = Returns True s2 \<and> m_miners s2 = m_miners s1
         \<and> m_isMining s2 = m_isMining s1 \<and> Gpus s2 = Gpus s1"
    if "start ef now s = Returns True s1"
    using start_success_guarded [OF that] by (rule start_guard_state)
  have c: "\<exists>sa sb. start ef now s = Returns True sa \<and> m_miners sa \<noteq> [] \<and> m_isMining sa
         \<and> start ef' now' sa = Returns True sb \<and> m_miners sb = m_miners sa
         \<and> m_isMining sb = m_isMining sa \<and> Gpus sb = Gpus sa"
    if h: "\<not> m_isMining s \<and> m_miners s = [] \<and> (\<forall>i. \<not> ef i)
        \<and> enabledInitialized (Gpus s) \<and> \<not> noDeviceUsable (Gpus s)
        \<and> length (Gpus s) < 2 ^ 32"
  proof -
    from h start_succeeds [of s ef now] obtain sa
      where sa: "start ef now s = Returns True sa" "m_miners sa \<noteq> []" "m_isMining sa"
      by blast
    from start_guard_state [of sa ef' now'] sa(3) obtain sb
      where "start ef' now' sa = Returns True sb" "m_miners sb = m_miners sa"
        "m_isMining sb = m_isMining sa" "Gpus sb = Gpus sa"
      by blast
    then show ?thesis using sa by blast
  qed
  show ?thesis using a b c by blast
qed

text \<open>
  The theorem on the example: \<^verbatim>\<open>start\<close> on the fresh farm with one enabled CPU
  returns \<^verbatim>\<open>true\<close> with a pool of one worker, and the second call returns \<^verbatim>\<open>true\<close>
  with that pool.
\<close>

theorem start_twice_witness:
  "start exitFlagDown 7 (Farm_init [cpuDevice]) = Returns True startedExample
   \<and> length (m_miners startedExample) = 1
   \<and> (\<exists>s2. start exitFlagDown 8 startedExample = Returns True s2
         \<and> m_miners s2 = m_miners startedExample
         \<and> m_isMining s2 = m_isMining startedExample \<and> Gpus s2 = Gpus startedExample)
   \<and> (\<exists>sa sb. start exitFlagDown 7 (Farm_init [cpuDevice]) = Returns True sa
         \<and> m_miners sa \<noteq> [] \<and> m_isMining sa
         \<and> start exitFlagDown 8 sa = Returns True sb \<and> m_miners sb = m_miners sa
         \<and> m_isMining sb = m_isMining sa \<and> Gpus sb = Gpus sa)"
proof -
  have h: "\<not> m_isMining (Farm_init [cpuDevice]) \<and> m_miners (Farm_init [cpuDevice]) = []
        \<and> (\<forall>i. \<not> exitFlagDown i)
        \<and> enabledInitialized (Gpus (Farm_init [cpuDevice]))
        \<and> \<not> noDeviceUsable (Gpus (Farm_init [cpuDevice]))
        \<and> length (Gpus (Farm_init [cpuDevice])) < 2 ^ 32"
    by (simp add: Farm_init_def cpuDevice_def exitFlagDown_def enabledInitialized_def
        noDeviceUsable_def RHMINER_TEST_BIT_def)
  show ?thesis
    using h start_example startedExample_pool
      start_twice [of "Farm_init [cpuDevice]" exitFlagDown 7 startedExample exitFlagDown 8]
    by simp
qed

text \<open>
  Claim C7 as stated fails when the exit flag is up: on the fresh farm with one enabled
  CPU the first call of \<^verbatim>\<open>start\<close> returns \<^verbatim>\<open>false\<close> from the first iteration of the
  device loop, and so does the second call; neither returns success.
\<close>

theorem start_twice_exit_flag:
  "start exitFlagUp 7 (Farm_init [cpuDevice]) = Returns False exitingExample
   \<and> start exitFlagUp 8 exitingExample = Returns False exitingExample"
  by (simp add: exitingExample_def start_def Let_def Farm_init_def cpuDevice_def
      exitFlagUp_def Begin_def)

lemma allocate_none:
  assumes "noDeviceUsable gpus" and "enabledInitialized gpus"
  shows "\<exists>gpus' msgs. allocateMiners (\<lambda>i. False) gi gpus = (LoopDone, gpus', [], msgs)"
  using assms
proof (induction gpus arbitrary: gi)
  case Nil
  then show ?case by simp
next
  case (Cons g gs)
  then obtain gpus' msgs
    where r: "allocateMiners (\<lambda>i. False) (gi + 1) gs = (LoopDone, gpus', [], msgs)"
    unfolding noDeviceUsable_def enabledInitialized_def by fastforce
  show ?case using Cons.prems r
    by (auto simp add: noDeviceUsable_def enabledInitialized_def allocateOne_def Let_def)
qed

lemma start_poolConsistent:
  assumes "poolConsistent s" and "start ef now s = Returns b s'"
  shows "poolConsistent s'"
  using assms
  by (auto simp add: start_def Let_def resetTimer_def poolConsistent_def
      split: if_splits prod.splits LoopExit.splits)

text \<open>
  Claim C10, as amended. If \<^verbatim>\<open>start\<close> gets past its two guards (not mining, empty
  pool), the exit flag is not up in any iteration of the device loop, the assertion on
  enabled devices holds, and no device yields a worker (each is disabled or is skipped
  for want of a kernel), then the process ends, and the last thing printed is
  "No cpu/gpu selected"; the pool is empty and the farm is not marked as mining.
  And \<^verbatim>\<open>start\<close> never returns with an empty pool marked as mining: from a farm whose
  flag and pool agree it returns, if it returns, to a farm whose flag and pool agree.
\<close>

theorem start_zero_workers:
  "(\<not> m_isMining s \<and> m_miners s = [] \<and> (\<forall>i. \<not> ef i)
      \<and> enabledInitialized (Gpus s) \<and> noDeviceUsable (Gpus s)
    \<longrightarrow> (\<exists>s'. start ef now s = Terminates s' \<and> printed s' \<noteq> []
            \<and> last (printed s') = MsgNoCpuGpu
            \<and> m_miners s' = [] \<and> \<not> m_isMining s'))
   \<and> (poolConsistent s \<and> start ef now s = Returns b s' \<longrightarrow> poolConsistent s')"
proof -
  have a: "\<exists>s'. start ef now s = Terminates s' \<and> printed s' \<noteq> []
            \<and> last (printed s') = MsgNoCpuGpu
            \<and> m_miners s' = [] \<and> \<not> m_isMining s'"
    if h: "\<not> m_isMining s \<and> m_miners s = [] \<and> (\<forall>i. \<not> ef i)
      \<and> enabledInitialized (Gpus s) \<and> noDeviceUsable (Gpus s)"
  proof -
    from h have ef: "ef = (\<lambda>i. False)" by auto
    from h allocate_none [of "Gpus s" 0] obtain gpus' msgs
      where al: "allocateMiners (\<lambda>i. False) 0 (Gpus s) = (LoopDone, gpus', [], msgs)" by blast
    show ?thesis
      using h al unfolding ef by (simp add: start_def Let_def registerMiners_Nil)
  qed
  have b: "poolConsistent s'" if "poolConsistent s \<and> start ef now s = Returns b s'"
    using that start_poolConsistent [of s ef now b s'] by blast
  show ?thesis using a b by blast
qed

text \<open>
  The theorem on two inventories: with a disabled CPU and an AMD card the process
  ends; with the enabled CPU \<^verbatim>\<open>start\<close> returns to a farm that is mining with a pool
  that is not empty.
\<close>

theorem start_zero_workers_witness:
  "(\<exists>s'. start exitFlagDown 7 (Farm_init [offDevice, amdDevice]) = Terminates s'
       \<and> printed s' \<noteq> [] \<and> last (printed s') = MsgNoCpuGpu
       \<and> m_miners s' = [] \<and> \<not> m_isMining s')
   \<and> poolConsistent startedExample"
proof -
  have h: "\<not> m_isMining (Farm_init [offDevice, amdDevice])
      \<and> m_miners (Farm_init [offDevice, amdDevice]) = [] \<and> (\<forall>i. \<not> exitFlagDown i)
      \<and> enabledInitialized (Gpus (Farm_init [offDevice, amdDevice]))
      \<and> noDeviceUsable (Gpus (Farm_init [offDevice, amdDevice]))"
    by (simp add: Farm_init_def offDevice_def amdDevice_def enabledInitialized_def
        noDeviceUsable_def RHMINER_TEST_BIT_def exitFlagDown_def)
  have c: "poolConsistent (Farm_init [cpuDevice])"
    by (simp add: poolConsistent_def Farm_init_def)
  show ?thesis
    using h c start_example
      start_zero_workers [of "Farm_init [offDevice, amdDevice]" exitFlagDown 7]
      start_zero_workers [of "Farm_init [cpuDevice]" exitFlagDown 7 True startedExample]
    by blast
qed

text \<open>
  Claim C10 as stated fails when the exit flag is up: on an inventory whose only device
  is disabled, \<^verbatim>\<open>start\<close> gets past its guards, constructs no worker, and returns
  \<^verbatim>\<open>false\<close> from the first iteration of the device loop; the process does not end.
\<close>

theorem start_exit_flag_returns_false:
  "\<not> terminated (start exitFlagUp 7 (Farm_init [offDevice]))
   \<and> start exitFlagUp 7 (Farm_init [offDevice]) =
       Returns False ((Farm_init [offDevice])
         \<lparr>m_solutionStats := Begin (m_solutionStats (Farm_init [offDevice]))\<rparr>)"
  by (simp add: start_def Let_def Farm_init_def offDevice_def exitFlagUp_def)

section \<open>Properties of dead-worker detection\<close>

lemma fold_dead:
  "fold (\<lambda>m deadCount. if isStopped m then deadCount + 1 else deadCount) ms (d::U32)
     = d + of_nat (length (filter isStopped ms))"
  by (induction ms arbitrary: d) simp_all

lemma countDead_filter: "countDead ms = of_nat (length (filter isStopped ms))"
  by (simp add: countDead_def fold_dead)

lemma length_filter_all: "(length (filter P xs) = length xs) = list_all P xs"
proof (induction xs)
  case Nil
  then show ?case by simp
next
  case (Cons x xs)
  have "length (filter P xs) \<le> length xs" by simp
  then have "length (filter P xs) \<noteq> Suc (length xs)" by linarith
  then show ?case using Cons by auto
qed

lemma unat_ucast_U32_U64: "unat (ucast (w :: U32) :: U64) = unat w"
  apply (simp add: unsigned_ucast_eq)
  apply (rule take_bit_nat_eq_self)
  apply (rule less_trans [OF unsigned_less])
  apply simp
  done

text \<open>
  The test of lines 211 and 253 on machine integers says what it is meant to say as long
  as the 32-bit counter cannot wrap.
\<close>

lemma all_dead_test:
  assumes "length ms < 2 ^ 31"
  shows "((of_nat (length ms) :: U64) = ucast (of_nat (length (filter isStopped ms)) :: U32)
           \<and> (of_nat (length (filter isStopped ms)) :: U32) \<noteq> 0)
         = (ms \<noteq> [] \<and> list_all isStopped ms)"
proof -
  let ?k = "length (filter isStopped ms)"
  have k: "?k \<le> length ms" by simp
  have "(2::nat) ^ 31 < 2 ^ 32" by simp
  then have k32: "?k < 2 ^ 32" using k assms by linarith
  have "(2::nat) ^ 31 < 2 ^ 64" by simp
  then have n64': "length ms < 2 ^ 64" using assms by linarith
  have u32: "unat (of_nat ?k :: U32) = ?k"
    using k32 by (simp add: unat_of_nat)
  have u64: "unat (ucast (of_nat ?k :: U32) :: U64) = ?k"
    using u32 by (simp only: unat_ucast_U32_U64)
  have n64: "unat (of_nat (length ms) :: U64) = length ms"
    using n64' by (simp add: unat_of_nat)
  have eq: "((of_nat (length ms) :: U64) = ucast (of_nat ?k :: U32)) = (length ms = ?k)"
    by (simp only: word_unat_eq_iff u64 n64)
  have nz: "((of_nat ?k :: U32) \<noteq> 0) = (?k \<noteq> 0)"
  proof -
    have "((of_nat ?k :: U32) = 0) = (unat (of_nat ?k :: U32) = 0)" by (simp only: unat_0_iff)
    then show ?thesis by (simp only: u32)
  qed
  have "(length ms = ?k \<and> ?k \<noteq> 0) = (ms \<noteq> [] \<and> list_all isStopped ms)"
    using length_filter_all [of isStopped ms] by (cases ms) auto
  then show ?thesis by (simp only: eq nz)
qed

lemma DetectDeadMiners_char:
  assumes "poolConsistent s" and "length (m_miners s) < 2 ^ 31"
  shows "DetectDeadMiners s =
     (if m_miners s \<noteq> [] \<and> list_all isStopped (m_miners s)
      then (True, s\<lparr>m_miners := [], m_isMining := False\<rparr>) else (False, s))"
proof -
  have t: "((of_nat (length (m_miners s)) :: U64) = ucast (countDead (m_miners s))
           \<and> countDead (m_miners s) \<noteq> 0)
         = (m_miners s \<noteq> [] \<and> list_all isStopped (m_miners s))"
    unfolding countDead_filter by (rule all_dead_test [OF assms(2)])
  have m: "m_miners s \<noteq> [] \<Longrightarrow> m_isMining s" using assms(1) by (simp add: poolConsistent_def)
  show ?thesis
    unfolding DetectDeadMiners_def Let_def t
    using m by (simp add: internalStop_def)
qed

lemma fold_progress_dead:
  "fst (fold (progressStep rate dt st) ms (d, p)) = d + of_nat (length (filter isStopped ms))"
  by (induction ms arbitrary: d p) (simp_all add: progressStep_def Let_def split_def)

lemma fold_progress_rates:
  "minersHasheRate (snd (fold (progressStep rate dt st) ms (d, p))) =
     minersHasheRate p @ map (\<lambda>m. rate (GetHashRatePerSec m) dt) ms"
  by (induction ms arbitrary: d p) (simp_all add: progressStep_def Let_def split_def)

lemma miningProgress_pool:
  assumes "poolConsistent s" and "length (m_miners s) < 2 ^ 31"
  shows "m_miners (snd (miningProgress rate ta tb tc reset s)) =
           (if m_miners s \<noteq> [] \<and> list_all isStopped (m_miners s) then [] else m_miners s)
       \<and> m_isMining (snd (miningProgress rate ta tb tc reset s)) =
           (if m_miners s \<noteq> [] \<and> list_all isStopped (m_miners s) then False else m_isMining s)"
proof -
  have m: "m_miners s \<noteq> [] \<Longrightarrow> m_isMining s" using assms(1) by (simp add: poolConsistent_def)
  define C where "C = ((of_nat (length (m_miners s)) :: U64) = ucast (countDead (m_miners s))
           \<and> countDead (m_miners s) \<noteq> 0)"
  have C_eq: "C = (m_miners s \<noteq> [] \<and> list_all isStopped (m_miners s))"
    unfolding C_def countDead_filter by (rule all_dead_test [OF assms(2)])
  have d: "\<And>dt st. fst (fold (progressStep rate dt st) (m_miners s) (0, WorkingProgress_init))
      = countDead (m_miners s)"
    by (simp add: fold_progress_dead countDead_filter)
  have "m_miners (snd (miningProgress rate ta tb tc reset s)) = (if C then [] else m_miners s)
     \<and> m_isMining (snd (miningProgress rate ta tb tc reset s)) = (if C then False else m_isMining s)"
  proof (cases C)
    case True
    then have "m_miners s \<noteq> []" using C_eq by simp
    then have "m_isMining s" by (rule m)
    then show ?thesis using True
      by (simp add: miningProgress_def Let_def split_def d internalStop_def C_def)
  next
    case False
    then show ?thesis
      by (auto simp add: miningProgress_def Let_def split_def d internalStop_def C_def)
  qed
  then show ?thesis unfolding C_eq .
qed

text \<open>No step of a submission touches the pool or the mining flag.\<close>

lemma PurgeThreadInternal_pool:
  "m_miners (PurgeThreadInternal s) = m_miners s"
  "m_isMining (PurgeThreadInternal s) = m_isMining s"
  by (simp_all add: PurgeThreadInternal_def split_def)

lemma submitSteps_pool:
  "m_miners (fold (submitStep f sol k) steps s) = m_miners s
   \<and> m_isMining (fold (submitStep f sol k) steps s) = m_isMining s"
proof (induction steps arbitrary: s)
  case Nil
  then show ?case by simp
next
  case (Cons st steps)
  have "m_miners (submitStep f sol k st s) = m_miners s
      \<and> m_isMining (submitStep f sol k st s) = m_isMining s"
    by (cases st)
      (simp_all add: invokeAcceptor_def markComplete_def submitProof_register_def
        PurgeThreadInternal_pool split: AcceptorOutcome.splits option.splits)
  then show ?case using Cons.IH [of "submitStep f sol k st s"] by simp
qed

text \<open>The flag and the pool agree on a fresh farm and keep agreeing.\<close>

lemma poolConsistent_preserved:
  "poolConsistent (Farm_init gpus)"
  "poolConsistent s \<Longrightarrow> poolConsistent (SetWork wp now s)"
  "poolConsistent s \<Longrightarrow> poolConsistent (SetWorkpackageDirty s)"
  "poolConsistent s \<Longrightarrow> poolConsistent (internalStop s)"
  "poolConsistent s \<Longrightarrow> poolConsistent (PurgeThreadInternal s)"
  "poolConsistent s \<Longrightarrow> poolConsistent (stop s)"
  "poolConsistent s \<Longrightarrow> poolConsistent (snd (DetectDeadMiners s))"
  "poolConsistent s \<Longrightarrow> poolConsistent (snd (miningProgress rate ta tb tc reset s))"
  "poolConsistent s \<Longrightarrow> poolConsistent (AddAcceptedSolution i s)"
  "poolConsistent s \<Longrightarrow> poolConsistent (final (AddRejectedSolution mx i tcmp tstore s))"
  "poolConsistent s \<Longrightarrow> poolConsistent (final (submitProof cb sol order s))"
  "poolConsistent s \<Longrightarrow> poolConsistent (submitThread f sol k order s)"
  by (auto simp add: poolConsistent_def Farm_init_def SetWork_def SetWorkpackageDirty_def
      internalStop_def PurgeThreadInternal_pool stop_def DetectDeadMiners_def miningProgress_def
      AddAcceptedSolution_def AddRejectedSolution_def submitProof_def submitThread_def
      submitProof_dispatch_def submitSteps_pool resetTimer_def Let_def split_def
      split: option.splits)

text \<open>
  Claim C6. On a farm whose mining flag and pool agree (as they do on a fresh farm and
  after every operation) and whose pool has fewer than \<open>2 ^ 31\<close> workers:
  \<^verbatim>\<open>DetectDeadMiners\<close> returns \<^verbatim>\<open>true\<close> and tears the pool down (the pool is cleared,
  the farm is marked as not mining) exactly when the pool is not empty and every worker
  in it reports stopped, and otherwise returns \<^verbatim>\<open>false\<close> and changes nothing;
  \<^verbatim>\<open>miningProgress\<close> tears the pool down under the same condition, and otherwise
  leaves pool and flag as they are. On an empty pool \<^verbatim>\<open>DetectDeadMiners\<close> returns
  \<^verbatim>\<open>false\<close> and \<^verbatim>\<open>miningProgress\<close> leaves the pool and the flag alone, in every state.
\<close>

theorem dead_pool_teardown:
  "(poolConsistent s \<and> length (m_miners s) < 2 ^ 31 \<longrightarrow>
      DetectDeadMiners s =
        (if m_miners s \<noteq> [] \<and> list_all isStopped (m_miners s)
         then (True, s\<lparr>m_miners := [], m_isMining := False\<rparr>) else (False, s))
      \<and> m_miners (snd (miningProgress rate ta tb tc reset s)) =
           (if m_miners s \<noteq> [] \<and> list_all isStopped (m_miners s) then [] else m_miners s)
      \<and> m_isMining (snd (miningProgress rate ta tb tc reset s)) =
           (if m_miners s \<noteq> [] \<and> list_all isStopped (m_miners s) then False else m_isMining s))
   \<and> (m_miners s = [] \<longrightarrow>
      DetectDeadMiners s = (False, s)
      \<and> m_miners (snd (miningProgress rate ta tb tc reset s)) = []
      \<and> m_isMining (snd (miningProgress rate ta tb tc reset s)) = m_isMining s)"
proof -
  have a: "DetectDeadMiners s =
        (if m_miners s \<noteq> [] \<and> list_all isStopped (m_miners s)
         then (True, s\<lparr>m_miners := [], m_isMining := False\<rparr>) else (False, s))
      \<and> m_miners (snd (miningProgress rate ta tb tc reset s)) =
           (if m_miners s \<noteq> [] \<and> list_all isStopped (m_miners s) then [] else m_miners s)
      \<and> m_isMining (snd (miningProgress rate ta tb tc reset s)) =
           (if m_miners s \<noteq> [] \<and> list_all isStopped (m_miners s) then False else m_isMining s)"
    if "poolConsistent s \<and> length (m_miners s) < 2 ^ 31"
    using that DetectDeadMiners_char [of s] miningProgress_pool [of s rate ta tb tc reset]
    by simp
  have b: "DetectDeadMiners s = (False, s)
      \<and> m_miners (snd (miningProgress rate ta tb tc reset s)) = []
      \<and> m_isMining (snd (miningProgress rate ta tb tc reset s)) = m_isMining s"
    if "m_miners s = []"
    using that
    by (simp add: DetectDeadMiners_def countDead_def miningProgress_def Let_def split_def)
  show ?thesis using a b by blast
qed

text \<open>
  The theorem on three farms with the flag set: two stopped workers (torn down), one
  stopped and one running worker (kept), and the fresh farm with its empty pool.
\<close>

theorem dead_pool_teardown_witness:
  "fst (DetectDeadMiners
      ((Farm_init [])\<lparr>m_miners := [stoppedWorker 0, stoppedWorker 1], m_isMining := True\<rparr>))
   \<and> m_miners (snd (DetectDeadMiners
      ((Farm_init [])\<lparr>m_miners := [stoppedWorker 0, stoppedWorker 1], m_isMining := True\<rparr>))) = []
   \<and> m_miners (snd (miningProgress wholeSecondRate 1000 2000 2000 False
      ((Farm_init [])\<lparr>m_miners := [stoppedWorker 0, stoppedWorker 1], m_isMining := True\<rparr>))) = []
   \<and> \<not> fst (DetectDeadMiners
      ((Farm_init [])\<lparr>m_miners := [stoppedWorker 0, countingWorker 1 5], m_isMining := True\<rparr>))
   \<and> m_miners (snd (miningProgress wholeSecondRate 1000 2000 2000 False
      ((Farm_init [])\<lparr>m_miners := [stoppedWorker 0, countingWorker 1 5], m_isMining := True\<rparr>)))
        = [stoppedWorker 0, countingWorker 1 5]
   \<and> DetectDeadMiners (Farm_init []) = (False, Farm_init [])"
proof -
  let ?dead = "(Farm_init [])\<lparr>m_miners := [stoppedWorker 0, stoppedWorker 1], m_isMining := True\<rparr>"
  let ?half = "(Farm_init [])\<lparr>m_miners := [stoppedWorker 0, countingWorker 1 5], m_isMining := True\<rparr>"
  have d: "poolConsistent ?dead \<and> length (m_miners ?dead) < 2 ^ 31"
    by (simp add: poolConsistent_def)
  have h: "poolConsistent ?half \<and> length (m_miners ?half) < 2 ^ 31"
    by (simp add: poolConsistent_def)
  have e: "m_miners (Farm_init []) = []" by (simp add: Farm_init_def)
  have st: "isStopped (stoppedWorker 0)" "isStopped (stoppedWorker 1)"
    "\<not> isStopped (countingWorker 1 5)"
    by (simp_all add: isStopped_def stoppedWorker_def countingWorker_def StartWorking_def
        CreateMiner_def)
  show ?thesis
    using d h e st
      dead_pool_teardown [of ?dead wholeSecondRate 1000 2000 2000 False]
      dead_pool_teardown [of ?half wholeSecondRate 1000 2000 2000 False]
      dead_pool_teardown [of "Farm_init []" wholeSecondRate 1000 2000 2000 False]
    by simp
qed

section \<open>Properties of the peak store\<close>

lemma miningProgress_peak:
  "m_minersHasheRatePeak (snd (miningProgress rate ta tb tc reset s)) =
     mergePeaks (m_minersHasheRatePeak s)
       (map (\<lambda>m. rate (GetHashRatePerSec m) (elapsedMs ta tb s)) (m_miners s))"
  by (simp add: miningProgress_def Let_def split_def fold_progress_rates
        internalStop_def WorkingProgress_init_def elapsedMs_def)

lemma miningProgress_rates:
  "minersHasheRate (fst (miningProgress rate ta tb tc reset s)) =
     map (\<lambda>m. rate (GetHashRatePerSec m) (elapsedMs ta tb s)) (m_miners s)"
  by (simp add: miningProgress_def Let_def split_def fold_progress_rates
        internalStop_def WorkingProgress_init_def elapsedMs_def)

text \<open>The merge loop keeps the length of the store and lowers no entry.\<close>

lemma fold_peak_grows:
  fixes rates peak0 :: "U32 list"
  shows "length (fold (\<lambda>i pk. if rates ! i > pk ! i then pk[i := rates ! i] else pk)
                  [0..<n] peak0) = length peak0
   \<and> (\<forall>i < length peak0. peak0 ! i \<le>
         fold (\<lambda>i pk. if rates ! i > pk ! i then pk[i := rates ! i] else pk) [0..<n] peak0 ! i)"
proof (induction n)
  case 0
  then show ?case by simp
next
  case (Suc n)
  let ?pk = "fold (\<lambda>i pk. if rates ! i > pk ! i then pk[i := rates ! i] else pk) [0..<n] peak0"
  have len: "length ?pk = length peak0" using Suc by simp
  have le: "\<forall>i < length peak0. peak0 ! i \<le> ?pk ! i" using Suc by simp
  show ?case
  proof (cases "rates ! n > ?pk ! n")
    case False
    then show ?thesis using len le by simp
  next
    case True
    have "\<forall>i < length peak0. peak0 ! i \<le> (?pk[n := rates ! n]) ! i"
    proof (intro allI impI)
      fix i assume i: "i < length peak0"
      show "peak0 ! i \<le> (?pk[n := rates ! n]) ! i"
      proof (cases "i = n")
        case True
        have "peak0 ! n \<le> ?pk ! n" using le i True by simp
        also have "?pk ! n \<le> rates ! n" using \<open>rates ! n > ?pk ! n\<close> by simp
        finally show ?thesis using True i len by simp
      next
        case False
        then show ?thesis using le i by simp
      qed
    qed
    then show ?thesis using True len by simp
  qed
qed

lemma mergePeaks_monotone:
  assumes "length rates = length peak"
  shows "length (mergePeaks peak rates) = length peak
     \<and> (\<forall>i < length peak. peak ! i \<le> mergePeaks peak rates ! i)"
  using assms fold_peak_grows [of rates "length rates" peak]
  by (simp add: mergePeaks_def)

text \<open>Started from zeros, the merge loop copies the rates.\<close>

lemma fold_peak_from_zero:
  fixes rates :: "U32 list"
  shows "n \<le> length rates \<Longrightarrow>
   fold (\<lambda>i pk. if rates ! i > pk ! i then pk[i := rates ! i] else pk) [0..<n]
        (map (\<lambda>a. 0) rates)
     = take n rates @ map (\<lambda>a. 0) (drop n rates)"
proof (induction n)
  case 0
  then show ?case by simp
next
  case (Suc n)
  then have n: "n < length rates" by simp
  have d: "drop n rates = rates ! n # drop (Suc n) rates"
    using n by (simp add: Cons_nth_drop_Suc)
  have z: "(0::U32) < rates ! n \<or> rates ! n = 0" using word_neq_0_conv by blast
  show ?case using Suc n z
    by (auto simp add: d nth_append take_Suc_conv_app_nth list_update_append)
qed

lemma mergePeaks_resize:
  assumes "length rates \<noteq> length peak"
  shows "mergePeaks peak rates = rates"
  using assms fold_peak_from_zero [of "length rates" rates]
  by (simp add: mergePeaks_def)

lemma snapshots_peak_monotone:
  assumes "list_all (pollSize (length (m_minersHasheRatePeak s))) polls"
  shows "length (m_minersHasheRatePeak (snapshots rate s polls)) = length (m_minersHasheRatePeak s)
     \<and> (\<forall>i < length (m_minersHasheRatePeak s).
           m_minersHasheRatePeak s ! i \<le> m_minersHasheRatePeak (snapshots rate s polls) ! i)"
  using assms
proof (induction polls arbitrary: s)
  case Nil
  then show ?case by simp
next
  case (Cons poll polls)
  obtain pool ta tb tc where poll: "poll = (pool, ta, tb, tc)" by (cases poll) auto
  let ?s0 = "s\<lparr>m_miners := pool\<rparr>"
  let ?s1 = "snd (miningProgress rate ta tb tc False ?s0)"
  have sz: "length pool = length (m_minersHasheRatePeak s)"
    using Cons.prems poll by (simp add: pollSize_def)
  have pk: "m_minersHasheRatePeak ?s1 = mergePeaks (m_minersHasheRatePeak s)
       (map (\<lambda>m. rate (GetHashRatePerSec m) (elapsedMs ta tb ?s0)) pool)"
    using miningProgress_peak [of rate ta tb tc False ?s0] by simp
  have step: "length (m_minersHasheRatePeak ?s1) = length (m_minersHasheRatePeak s)
     \<and> (\<forall>i < length (m_minersHasheRatePeak s).
           m_minersHasheRatePeak s ! i \<le> m_minersHasheRatePeak ?s1 ! i)"
    unfolding pk using sz by (intro mergePeaks_monotone) simp
  have rest: "length (m_minersHasheRatePeak (snapshots rate ?s1 polls))
        = length (m_minersHasheRatePeak ?s1)
     \<and> (\<forall>i < length (m_minersHasheRatePeak ?s1).
           m_minersHasheRatePeak ?s1 ! i \<le> m_minersHasheRatePeak (snapshots rate ?s1 polls) ! i)"
    using Cons.prems step by (intro Cons.IH) simp
  show ?case
    using step rest poll by (auto intro: order_trans)
qed

text \<open>
  Claim C8, as amended. Across any sequence of \<^verbatim>\<open>miningProgress\<close> snapshots at each
  of which the pool has as many workers as the peak store has entries, the store keeps
  its size and the peak recorded at every position does not decrease, whatever the
  workers' rates do. At a snapshot where the number of workers differs from the size of
  the store, the store is cleared and refilled: all recorded peaks are dropped and the
  new store holds the rates of this snapshot.
\<close>

theorem peak_store_monotone:
  "(list_all (pollSize (length (m_minersHasheRatePeak s))) polls \<longrightarrow>
      length (m_minersHasheRatePeak (snapshots rate s polls)) = length (m_minersHasheRatePeak s)
      \<and> (\<forall>i < length (m_minersHasheRatePeak s).
            m_minersHasheRatePeak s ! i \<le> m_minersHasheRatePeak (snapshots rate s polls) ! i))
   \<and> (length (m_miners s) \<noteq> length (m_minersHasheRatePeak s) \<longrightarrow>
      m_minersHasheRatePeak (snd (miningProgress rate ta tb tc reset s)) =
        minersHasheRate (fst (miningProgress rate ta tb tc reset s)))"
proof -
  have a: "length (m_minersHasheRatePeak (snapshots rate s polls)) = length (m_minersHasheRatePeak s)
      \<and> (\<forall>i < length (m_minersHasheRatePeak s).
            m_minersHasheRatePeak s ! i \<le> m_minersHasheRatePeak (snapshots rate s polls) ! i)"
    if "list_all (pollSize (length (m_minersHasheRatePeak s))) polls"
    using that by (rule snapshots_peak_monotone)
  have b: "m_minersHasheRatePeak (snd (miningProgress rate ta tb tc reset s)) =
        minersHasheRate (fst (miningProgress rate ta tb tc reset s))"
    if "length (m_miners s) \<noteq> length (m_minersHasheRatePeak s)"
    unfolding miningProgress_peak miningProgress_rates
    using that by (intro mergePeaks_resize) simp
  show ?thesis using a b by blast
qed

lemma peak_examples:
  "m_minersHasheRatePeak (snapshots wholeSecondRate (Farm_init []) [pollTwoWorkers]) = [100, 200]"
  "m_minersHasheRatePeak (snapshots wholeSecondRate (Farm_init []) [pollTwoWorkers, pollTwoSlower])
     = [100, 500]"
  "m_minersHasheRatePeak (snapshots wholeSecondRate (Farm_init []) [pollTwoWorkers, pollOneWorker])
     = [50]"
  by (simp_all add: pollTwoWorkers_def pollTwoSlower_def pollOneWorker_def Farm_init_def
      miningProgress_peak mergePeaks_def countingWorker_def wholeSecondRate_def
      GetHashRatePerSec_def upt_conv_Cons)

text \<open>
  The theorem on the farm that has been polled once with two workers, rates 100 and 200:
  a second poll one second later, with rates 30 and 500, leaves the peaks at 100 and 500.
  And on the fresh farm, whose store is empty: the first poll with two workers fills it
  with their rates.
\<close>

theorem peak_store_monotone_witness:
  "m_minersHasheRatePeak (snapshots wholeSecondRate (Farm_init []) [pollTwoWorkers]) ! 0
     \<le> m_minersHasheRatePeak
          (snapshots wholeSecondRate
             (snapshots wholeSecondRate (Farm_init []) [pollTwoWorkers]) [pollTwoSlower]) ! 0
   \<and> m_minersHasheRatePeak (snapshots wholeSecondRate (Farm_init []) [pollTwoWorkers]) ! 1
     \<le> m_minersHasheRatePeak
          (snapshots wholeSecondRate
             (snapshots wholeSecondRate (Farm_init []) [pollTwoWorkers]) [pollTwoSlower]) ! 1
   \<and> m_minersHasheRatePeak (snd (miningProgress wholeSecondRate 1000 2000 2000 False
          ((Farm_init [])\<lparr>m_miners := fst pollTwoWorkers\<rparr>))) =
       minersHasheRate (fst (miningProgress wholeSecondRate 1000 2000 2000 False
          ((Farm_init [])\<lparr>m_miners := fst pollTwoWorkers\<rparr>)))"
proof -
  let ?s = "snapshots wholeSecondRate (Farm_init []) [pollTwoWorkers]"
  let ?f = "(Farm_init [])\<lparr>m_miners := fst pollTwoWorkers\<rparr>"
  have len: "length (m_minersHasheRatePeak ?s) = 2" by (simp add: peak_examples)
  have h: "list_all (pollSize (length (m_minersHasheRatePeak ?s))) [pollTwoSlower]"
    unfolding len by (simp add: pollSize_def pollTwoSlower_def)
  have g: "length (m_miners ?f) \<noteq> length (m_minersHasheRatePeak ?f)"
    by (simp add: pollTwoWorkers_def Farm_init_def)
  from peak_store_monotone [of ?s "[pollTwoSlower]" wholeSecondRate] h
  have "\<forall>i < length (m_minersHasheRatePeak ?s).
      m_minersHasheRatePeak ?s ! i
        \<le> m_minersHasheRatePeak (snapshots wholeSecondRate ?s [pollTwoSlower]) ! i"
    by blast
  then have m: "\<forall>i < 2.
      m_minersHasheRatePeak ?s ! i
        \<le> m_minersHasheRatePeak (snapshots wholeSecondRate ?s [pollTwoSlower]) ! i"
    unfolding len .
  have m0: "m_minersHasheRatePeak ?s ! 0
        \<le> m_minersHasheRatePeak (snapshots wholeSecondRate ?s [pollTwoSlower]) ! 0"
    using m by simp
  have m1: "m_minersHasheRatePeak ?s ! 1
        \<le> m_minersHasheRatePeak (snapshots wholeSecondRate ?s [pollTwoSlower]) ! 1"
    using m by simp
  from peak_store_monotone [of ?f "[]" wholeSecondRate 1000 2000 2000 False] g
  have r: "m_minersHasheRatePeak (snd (miningProgress wholeSecondRate 1000 2000 2000 False ?f)) =
       minersHasheRate (fst (miningProgress wholeSecondRate 1000 2000 2000 False ?f))"
    by blast
  show ?thesis using m0 m1 r by blast
qed

text \<open>
  Claim C8 as stated fails when the pool changes size between two snapshots: after a
  poll with two workers the peak at position 0 is 100; the next poll, one second later,
  finds one worker with rate 50, and the peak at position 0 is 50.
\<close>

theorem peak_store_resize_loses_peak:
  "\<not> (m_minersHasheRatePeak (snapshots wholeSecondRate (Farm_init []) [pollTwoWorkers]) ! 0
      \<le> m_minersHasheRatePeak
           (snapshots wholeSecondRate (Farm_init []) [pollTwoWorkers, pollOneWorker]) ! 0)"
  by (simp add: pollTwoWorkers_def pollOneWorker_def Farm_init_def miningProgress_peak
      mergePeaks_def countingWorker_def wholeSecondRate_def GetHashRatePerSec_def upt_conv_Cons)

section \<open>Properties of the submission pipeline\<close>

lemma purge_fold_distinct:
  "distinct (map fst acc) \<Longrightarrow> distinct (map fst (fst (fold purgeStep xs (acc, th))))"
  by (induction xs arbitrary: acc th) (simp_all add: purgeStep_def distinct_update)

text \<open>What the purge loop leaves in \<^verbatim>\<open>newsub\<close>: the records that are not complete.\<close>

lemma purge_fold_lookup:
  assumes "distinct (map fst xs)"
  shows "map_of (fst (fold purgeStep xs (acc, th))) k =
     (case map_of xs k of
        None \<Rightarrow> map_of acc k
      | Some r \<Rightarrow> if snd r then map_of acc k else Some r)"
  using assms
proof (induction xs arbitrary: acc th)
  case Nil
  then show ?case by simp
next
  case (Cons x xs)
  have d: "distinct (map fst xs)" and nx: "fst x \<notin> fst ` set xs" using Cons.prems by auto
  have none: "k = fst x \<Longrightarrow> map_of xs k = None"
    using nx by (simp add: map_of_eq_None_iff)
  obtain i r where x: "x = (i, r)" by (cases x)
  show ?case
  proof (cases "snd r")
    case True
    then show ?thesis
      using Cons.IH [OF d, of acc "removeAll (fst r) th"] none x
      by (simp add: purgeStep_def)
  next
    case False
    then show ?thesis
      using Cons.IH [OF d, of "AList.update i r acc" th] none x
      by (auto simp add: purgeStep_def update_conv' split: option.splits)
  qed
qed

lemma purge_fold_threads_subset:
  "set (snd (fold purgeStep xs (acc, th))) \<subseteq> set th"
proof (induction xs arbitrary: acc th)
  case Nil
  then show ?case by simp
next
  case (Cons x xs)
  show ?case
  proof (cases "snd (snd x)")
    case True
    then show ?thesis
      using Cons.IH [of acc "removeAll (fst (snd x)) th"] by (auto simp add: purgeStep_def)
  next
    case False
    then show ?thesis
      using Cons.IH [of "AList.update (fst x) (snd x) acc" th] by (simp add: purgeStep_def)
  qed
qed

lemma purge_fold_deletes:
  assumes "(k, (t, True)) \<in> set xs"
  shows "t \<notin> set (snd (fold purgeStep xs (acc, th)))"
  using assms
proof (induction xs arbitrary: acc th)
  case Nil
  then show ?case by simp
next
  case (Cons x xs)
  show ?case
  proof (cases "x = (k, (t, True))")
    case True
    then have st: "purgeStep x (acc, th) = (acc, removeAll t th)" by (simp add: purgeStep_def)
    have "t \<notin> set (removeAll t th)" by simp
    then have "t \<notin> set (snd (fold purgeStep xs (acc, removeAll t th)))"
      using purge_fold_threads_subset [of xs acc "removeAll t th"] by blast
    then show ?thesis by (simp add: st)
  next
    case False
    then have "(k, (t, True)) \<in> set xs" using Cons.prems by simp
    then have "t \<notin> set (snd (fold purgeStep xs
        (fst (purgeStep x (acc, th)), snd (purgeStep x (acc, th)))))"
      by (rule Cons.IH)
    then show ?thesis by simp
  qed
qed

lemma PurgeThreadInternal_lookup:
  assumes "submitersWellFormed s"
  shows "map_of (m_submiters (PurgeThreadInternal s)) k =
     (case map_of (m_submiters s) k of
        None \<Rightarrow> None
      | Some r \<Rightarrow> if snd r then None else Some r)"
proof (cases "m_submiters s = []")
  case True
  then show ?thesis by (simp add: PurgeThreadInternal_def)
next
  case False
  then show ?thesis
    using purge_fold_lookup [of "m_submiters s" "[]" "threadObjects s" k] assms
    by (simp add: PurgeThreadInternal_def submitersWellFormed_def split_def
        split: option.splits)
qed

lemma PurgeThreadInternal_wellFormed:
  "submitersWellFormed s \<Longrightarrow> submitersWellFormed (PurgeThreadInternal s)"
  using purge_fold_distinct [of "[]" "m_submiters s" "threadObjects s"]
  by (simp add: PurgeThreadInternal_def submitersWellFormed_def split_def)

lemma PurgeThreadInternal_deletes:
  assumes "map_of (m_submiters s) k = Some (t, True)"
  shows "t \<notin> set (threadObjects (PurgeThreadInternal s))"
proof -
  have m: "(k, (t, True)) \<in> set (m_submiters s)" using assms by (rule map_of_SomeD)
  then have "m_submiters s \<noteq> []" by auto
  then show ?thesis
    using purge_fold_deletes [OF m, of "[]" "threadObjects s"]
    by (simp add: PurgeThreadInternal_def split_def)
qed

lemma PurgeThreadInternal_printed: "printed (PurgeThreadInternal s) = printed s"
  by (simp add: PurgeThreadInternal_def split_def)

lemma markComplete_lookup:
  "map_of (m_submiters s) k = Some (t, c) \<Longrightarrow>
   map_of (m_submiters (markComplete k s)) k = Some (t, True)"
  by (simp add: markComplete_def update_conv')

lemma markComplete_wellFormed:
  "submitersWellFormed s \<Longrightarrow> submitersWellFormed (markComplete k s)"
  by (simp add: markComplete_def submitersWellFormed_def distinct_update split: option.splits)

lemma invokeAcceptor_submiters:
  "m_submiters (invokeAcceptor f sol s) = m_submiters s"
  "threadObjects (invokeAcceptor f sol s) = threadObjects s"
  "submitersWellFormed (invokeAcceptor f sol s) = submitersWellFormed s"
  by (simp_all add: invokeAcceptor_def submitersWellFormed_def split: AcceptorOutcome.splits)

lemma submitProof_register_facts:
  assumes "submitersWellFormed s"
  shows "map_of (m_submiters (submitProof_register k s)) k = Some (k, False)"
    and "submitersWellFormed (submitProof_register k s)"
proof -
  let ?s1 = "s\<lparr>m_submiters := AList.update k (k, False) (m_submiters s)\<rparr>"
  have wf: "submitersWellFormed ?s1"
    using assms by (simp add: submitersWellFormed_def distinct_update)
  show "map_of (m_submiters (submitProof_register k s)) k = Some (k, False)"
    by (simp add: submitProof_register_def PurgeThreadInternal_lookup [OF wf] update_conv')
  show "submitersWellFormed (submitProof_register k s)"
    unfolding submitProof_register_def by (rule PurgeThreadInternal_wellFormed [OF wf])
qed

lemma submitProof_dispatch_facts:
  "fst (submitProof_dispatch s) = m_submitID s + 1"
  "m_submiters (snd (submitProof_dispatch s)) = m_submiters s"
  "submitersWellFormed (snd (submitProof_dispatch s)) = submitersWellFormed s"
  by (simp_all add: submitProof_dispatch_def Let_def submitersWellFormed_def)

text \<open>The submission map keeps its keys distinct.\<close>

lemma submitSteps_wellFormed:
  "submitersWellFormed s \<Longrightarrow> submitersWellFormed (fold (submitStep f sol k) steps s)"
proof (induction steps arbitrary: s)
  case Nil
  then show ?case by simp
next
  case (Cons st steps)
  have "submitersWellFormed (submitStep f sol k st s)"
    using Cons.prems
    by (cases st)
      (simp_all add: invokeAcceptor_submiters markComplete_wellFormed submitProof_register_facts)
  then show ?case using Cons.IH by simp
qed

lemma submitersWellFormed_preserved:
  "submitersWellFormed (Farm_init gpus)"
  "submitersWellFormed s \<Longrightarrow> submitersWellFormed (final (submitProof cb sol order s))"
  "submitersWellFormed s \<Longrightarrow> submitersWellFormed (submitThread f sol k order s)"
  "submitersWellFormed s \<Longrightarrow> submitersWellFormed (stop s)"
proof -
  show "submitersWellFormed (Farm_init gpus)"
    by (simp add: submitersWellFormed_def Farm_init_def)
  show "submitersWellFormed (final (submitProof cb sol order s))" if wf: "submitersWellFormed s"
  proof (cases cb)
    case None
    then show ?thesis using wf by (simp add: submitProof_def submitersWellFormed_def)
  next
    case (Some f)
    have "submitersWellFormed (snd (submitProof_dispatch s))"
      using wf by (simp add: submitProof_dispatch_facts)
    then show ?thesis using Some
      by (simp add: submitProof_def split_def submitSteps_wellFormed)
  qed
  show "submitersWellFormed (submitThread f sol k order s)" if wf: "submitersWellFormed s"
    unfolding submitThread_def using wf by (rule submitSteps_wellFormed)
  show "submitersWellFormed (stop s)" if wf: "submitersWellFormed s"
    using PurgeThreadInternal_wellFormed [OF wf]
    by (simp add: stop_def internalStop_def submitersWellFormed_def)
qed

text \<open>
  When the caller registers the record before the thread reaches its critical section,
  the submission ends as it should, whatever the acceptor does: the record is registered
  as not complete when \<^verbatim>\<open>submitProof\<close> returns, the thread marks it complete, and the
  next purge removes the record and deletes its thread object.
\<close>

lemma submission_reclaimed_when_registered_first:
  assumes "submitersWellFormed s" and "order = CallerBetween \<or> order = CallerFirst"
  shows "\<exists>k s1. submitProof (Some f) sol order s = Returns k s1
     \<and> map_of (m_submiters s1) k = Some (k, False)
     \<and> map_of (m_submiters (submitThread f sol k order s1)) k = Some (k, True)
     \<and> map_of (m_submiters (PurgeThreadInternal (submitThread f sol k order s1))) k = None
     \<and> k \<notin> set (threadObjects (PurgeThreadInternal (submitThread f sol k order s1)))"
proof -
  let ?k = "m_submitID s + 1"
  let ?d = "snd (submitProof_dispatch s)"
  let ?s1 = "final (submitProof (Some f) sol order s)"
  have wfd: "submitersWellFormed ?d" using assms(1) by (simp add: submitProof_dispatch_facts)
  have wfi: "submitersWellFormed (invokeAcceptor f sol ?d)"
    using wfd by (simp add: invokeAcceptor_submiters)
  have r: "submitProof (Some f) sol order s = Returns ?k ?s1"
    by (simp add: submitProof_def split_def submitProof_dispatch_facts)
  have s1: "?s1 = submitProof_register ?k ?d \<or> ?s1 = submitProof_register ?k (invokeAcceptor f sol ?d)"
    using assms(2) by (auto simp add: submitProof_def split_def submitProof_dispatch_facts)
  have l1: "map_of (m_submiters ?s1) ?k = Some (?k, False)"
    using s1 submitProof_register_facts(1) [OF wfd, of ?k]
      submitProof_register_facts(1) [OF wfi, of ?k] by auto
  have wf1: "submitersWellFormed ?s1"
    using s1 submitProof_register_facts(2) [OF wfd, of ?k]
      submitProof_register_facts(2) [OF wfi, of ?k] by auto
  let ?s2 = "submitThread f sol ?k order ?s1"
  have s2: "?s2 = markComplete ?k ?s1 \<or> ?s2 = markComplete ?k (invokeAcceptor f sol ?s1)"
    using assms(2) by (auto simp add: submitThread_def)
  have l2: "map_of (m_submiters ?s2) ?k = Some (?k, True)"
    using s2 l1 markComplete_lookup [of ?s1 ?k ?k False]
      markComplete_lookup [of "invokeAcceptor f sol ?s1" ?k ?k False]
    by (auto simp add: invokeAcceptor_submiters)
  have wf2: "submitersWellFormed ?s2"
    unfolding submitThread_def using wf1 by (rule submitSteps_wellFormed)
  have l3: "map_of (m_submiters (PurgeThreadInternal ?s2)) ?k = None"
    by (simp add: PurgeThreadInternal_lookup [OF wf2] l2)
  have l4: "?k \<notin> set (threadObjects (PurgeThreadInternal ?s2))"
    using l2 by (rule PurgeThreadInternal_deletes)
  show ?thesis using r l1 l2 l3 l4 by blast
qed

text \<open>
  When the thread reaches its critical section before the caller has registered the
  record, its lookup finds nothing and the flag is never set: \<^verbatim>\<open>submitProof\<close> then
  registers the record as not complete, nothing of the thread is left to run, and a
  purge keeps the record.
\<close>

lemma submission_kept_when_thread_ends_first:
  assumes "submitersWellFormed s" and "map_of (m_submiters s) (m_submitID s + 1) = None"
  shows "\<exists>s1. submitProof (Some f) sol ThreadEndsFirst s = Returns (m_submitID s + 1) s1
     \<and> submitThread f sol (m_submitID s + 1) ThreadEndsFirst s1 = s1
     \<and> map_of (m_submiters s1) (m_submitID s + 1) = Some (m_submitID s + 1, False)
     \<and> map_of (m_submiters (PurgeThreadInternal s1)) (m_submitID s + 1)
         = Some (m_submitID s + 1, False)"
proof -
  let ?k = "m_submitID s + 1"
  let ?i = "invokeAcceptor f sol (snd (submitProof_dispatch s))"
  have wfi: "submitersWellFormed ?i"
    using assms(1) by (simp add: invokeAcceptor_submiters submitProof_dispatch_facts)
  have miss: "markComplete ?k ?i = ?i"
    using assms(2)
    by (simp add: markComplete_def invokeAcceptor_submiters submitProof_dispatch_facts)
  have r: "submitProof (Some f) sol ThreadEndsFirst s = Returns ?k (submitProof_register ?k ?i)"
    by (simp add: submitProof_def split_def submitProof_dispatch_facts miss)
  note reg = submitProof_register_facts [OF wfi, of ?k]
  have p: "map_of (m_submiters (PurgeThreadInternal (submitProof_register ?k ?i))) ?k
      = Some (?k, False)"
    by (simp add: PurgeThreadInternal_lookup [OF reg(2)] reg(1))
  show ?thesis using r reg(1) p by (simp add: submitThread_def)
qed

text \<open>
  Claim C9 says that, when the acceptor throws, the record of the submission is still
  marked complete and removed by the next purge. The exception is contained: the call
  of the acceptor stands in \<^verbatim>\<open>try\<close> with \<^verbatim>\<open>catch (...)\<close> on the dispatched thread.
  But the record is marked only if the caller has registered it before the thread looks
  it up, and the code leaves that order to the thread's sleep of 100 ms (the comment at
  line 336 says what the sleep is for). On a fresh farm, with an acceptor that throws,
  in the order in which the thread is through its critical section before the caller
  gets the submission lock: \<^verbatim>\<open>submitProof\<close> returns, "Submit aborted" has been
  printed, the record 1 is registered as not complete, nothing of the thread is left to
  run, and neither a purge nor \<^verbatim>\<open>stop\<close> removes the record or deletes its thread
  object.
\<close>

theorem submission_never_reclaimed:
  "submitProof (Some throwingAcceptor) exampleSolution ThreadEndsFirst (Farm_init [])
     = Returns 1 leakedExample
   \<and> printed leakedExample = [MsgSubmitAborted]
   \<and> m_submiters leakedExample = [(1, (1, False))]
   \<and> threadObjects leakedExample = [1]
   \<and> submitThread throwingAcceptor exampleSolution 1 ThreadEndsFirst leakedExample = leakedExample
   \<and> m_submiters (PurgeThreadInternal leakedExample) = [(1, (1, False))]
   \<and> threadObjects (PurgeThreadInternal leakedExample) = [1]
   \<and> PurgeThreadInternal (PurgeThreadInternal leakedExample) = PurgeThreadInternal leakedExample
   \<and> m_submiters (stop leakedExample) = [(1, (1, False))]
   \<and> threadObjects (stop leakedExample) = [1]"
  by (simp add: leakedExample_def submitProof_def submitProof_dispatch_def
      submitProof_register_def submitThread_def invokeAcceptor_def markComplete_def
      throwingAcceptor_def PurgeThreadInternal_def purgeStep_def stop_def internalStop_def
      Farm_init_def Let_def)

text \<open>
  On the same farm, in the two orders in which the caller registers first, the purge
  after the thread's end leaves neither the record nor the thread object.
\<close>

lemma submission_reclaimed_examples:
  "threadObjects
     (final (submitProof (Some throwingAcceptor) exampleSolution CallerBetween (Farm_init [])))
     = [1]"
  "threadObjects
     (final (submitProof (Some throwingAcceptor) exampleSolution CallerFirst (Farm_init [])))
     = [1]"
  "m_submiters (PurgeThreadInternal (submitThread throwingAcceptor exampleSolution 1 CallerBetween
      (final (submitProof (Some throwingAcceptor) exampleSolution CallerBetween (Farm_init [])))))
     = []"
  "threadObjects (PurgeThreadInternal (submitThread throwingAcceptor exampleSolution 1 CallerBetween
      (final (submitProof (Some throwingAcceptor) exampleSolution CallerBetween (Farm_init [])))))
     = []"
  "m_submiters (PurgeThreadInternal (submitThread throwingAcceptor exampleSolution 1 CallerFirst
      (final (submitProof (Some throwingAcceptor) exampleSolution CallerFirst (Farm_init [])))))
     = []"
  "threadObjects (PurgeThreadInternal (submitThread throwingAcceptor exampleSolution 1 CallerFirst
      (final (submitProof (Some throwingAcceptor) exampleSolution CallerFirst (Farm_init [])))))
     = []"
  by (simp_all add: submitProof_def submitProof_dispatch_def
      submitProof_register_def submitThread_def invokeAcceptor_def markComplete_def
      throwingAcceptor_def PurgeThreadInternal_def purgeStep_def
      Farm_init_def Let_def)

end
